theory Spec2Isabelle
  imports
    Main
    "HOL-Library.Word"
    "HOL-Library.Sublist"
    "HOL-Library.Multiset"
    "HOL-Library.AList"
    "HOL-Library.Char_ord"
    "HOL-Library.List_Lexorder"
begin

section \<open>JSON values\<close>

text \<open>
  The engine works on decoded documents (Go's \<open>interface{}\<close> holding \<open>nil\<close>, \<open>bool\<close>,
  a number, \<open>string\<close>, \<open>[]interface{}\<close> or \<open>map[string]interface{}\<close>). A Go map has
  unique keys and no order of its own; an object is represented by its entries listed
  by strictly increasing key (\<open>wf_json\<close>), so that two objects with the same members are
  the same value. The decoder's number type is only ever compared for equality and is
  taken to be \<open>int\<close>.
\<close>

datatype json =
    JNull
  | JBool bool
  | JNum int
  | JStr string
  | JArr "json list"
  | JObj "(string \<times> json) list"

fun wf_json :: "json \<Rightarrow> bool" where
  "wf_json (JArr xs) = (\<forall>x \<in> set xs. wf_json x)"
| "wf_json (JObj kvs) =
     (sorted (map fst kvs) \<and> distinct (map fst kvs) \<and> (\<forall>kv \<in> set kvs. wf_json (snd kv)))"
| "wf_json _ = True"

text \<open>
  Modelled from the spec: \<open>typeSwitchKind\<close>, \<open>areComparable\<close>, \<open>deepValueEqual\<close> and
  \<open>deepEqual\<close> are not part of \<open>differ.go\<close>. Two values are comparable when they have
  the same shape; deep equality is: null equals null; booleans, numbers and strings by
  value; arrays iff same length and pairwise deeply equal in order; objects iff same key
  set and pairwise deeply equal values.
\<close>

datatype kind = KindNil | KindBool | KindNumber | KindString | KindSlice | KindMap

fun typeSwitchKind :: "json \<Rightarrow> kind" where
  "typeSwitchKind JNull = KindNil"
| "typeSwitchKind (JBool _) = KindBool"
| "typeSwitchKind (JNum _) = KindNumber"
| "typeSwitchKind (JStr _) = KindString"
| "typeSwitchKind (JArr _) = KindSlice"
| "typeSwitchKind (JObj _) = KindMap"

definition areComparable :: "json \<Rightarrow> json \<Rightarrow> bool" where
  "areComparable i1 i2 = (typeSwitchKind i1 = typeSwitchKind i2)"

fun deepValueEqual :: "json \<Rightarrow> json \<Rightarrow> bool" where
  "deepValueEqual JNull JNull = True"
| "deepValueEqual (JBool a) (JBool b) = (a = b)"
| "deepValueEqual (JNum a) (JNum b) = (a = b)"
| "deepValueEqual (JStr a) (JStr b) = (a = b)"
| "deepValueEqual (JArr xs) (JArr ys) =
     (length xs = length ys \<and> list_all2 deepValueEqual xs ys)"
| "deepValueEqual (JObj m1) (JObj m2) =
     (length m1 = length m2 \<and>
      (\<forall>kv \<in> set m1. case map_of m2 (fst kv) of
                        None \<Rightarrow> False
                      | Some v2 \<Rightarrow> deepValueEqual (snd kv) v2))"
| "deepValueEqual _ _ = False"

definition deepEqual :: "json \<Rightarrow> json \<Rightarrow> bool" where
  "deepEqual a b = (areComparable a b \<and> deepValueEqual a b)"

section \<open>Path tracker\<close>

text \<open>
  Modelled from the spec: the \<open>pointer\<close> type is not part of \<open>differ.go\<close>. It is a
  byte buffer holding the JSON Pointer text built so far, with a mark: \<open>snapshot\<close>
  records the current length, \<open>rewind\<close> truncates back to it. Tokens are joined by
  \<open>/\<close>, with \<open>~\<close> and \<open>/\<close> inside keys written \<open>~0\<close> and \<open>~1\<close>. Every method returns
  the updated pointer, as the source's \<open>ptr = ptr.appendKey(k)\<close> shows; a call whose
  result is dropped leaves the variable as it was.
\<close>

record pointer =
  buf :: string
  sep :: nat

definition emptyPtr :: string where
  "emptyPtr = []"

fun escapeKey :: "string \<Rightarrow> string" where
  "escapeKey [] = []"
| "escapeKey (c # cs) =
     (if c = CHR ''~'' then CHR ''~'' # CHR ''0'' # escapeKey cs
      else if c = CHR ''/'' then CHR ''~'' # CHR ''1'' # escapeKey cs
      else c # escapeKey cs)"

definition digit_char :: "nat \<Rightarrow> char" where
  "digit_char n = char_of (48 + n)"

fun itoa :: "nat \<Rightarrow> string" where
  "itoa n = (if n < 10 then [digit_char n] else itoa (n div 10) @ [digit_char (n mod 10)])"

declare itoa.simps [simp del]

definition appendKey :: "pointer \<Rightarrow> string \<Rightarrow> pointer" where
  "appendKey p k = p\<lparr>buf := buf p @ CHR ''/'' # escapeKey k\<rparr>"

definition appendIndex :: "pointer \<Rightarrow> nat \<Rightarrow> pointer" where
  "appendIndex p i = p\<lparr>buf := buf p @ CHR ''/'' # itoa i\<rparr>"

definition snapshot :: "pointer \<Rightarrow> pointer" where
  "snapshot p = p\<lparr>sep := length (buf p)\<rparr>"

definition rewind :: "pointer \<Rightarrow> pointer" where
  "rewind p = p\<lparr>buf := take (sep p) (buf p)\<rparr>"

definition copy :: "pointer \<Rightarrow> string" where
  "copy p = buf p"

definition string_of :: "pointer \<Rightarrow> string" where
  "string_of p = buf p"

definition isRoot :: "pointer \<Rightarrow> bool" where
  "isRoot p = (buf p = [])"


section \<open>Patch model\<close>

text \<open>
  Modelled from the spec: \<open>Operation\<close> and \<open>Patch\<close> are not part of \<open>differ.go\<close>. An
  operation carries its type, a source path (move and copy), a path, the old value and
  the new value; Go's \<open>nil\<close> value is \<open>JNull\<close>. \<open>patch_append typ from path src tgt\<close>
  appends one operation, \<open>patch_remove idx\<close> deletes the operation at an index.
\<close>

datatype optype =
  OperationAdd | OperationRemove | OperationReplace | OperationMove | OperationCopy | OperationTest

record operation =
  Type :: optype
  From :: string
  Path :: string
  OldValue :: json
  Value :: json

definition patch_append ::
  "operation list \<Rightarrow> optype \<Rightarrow> string \<Rightarrow> string \<Rightarrow> json \<Rightarrow> json \<Rightarrow> operation list" where
  "patch_append p typ from path src tgt =
     p @ [\<lparr>Type = typ, From = from, Path = path, OldValue = src, Value = tgt\<rparr>]"

definition patch_remove :: "operation list \<Rightarrow> nat \<Rightarrow> operation list" where
  "patch_remove p idx = take idx p @ drop (Suc idx) p"

section \<open>The Differ\<close>

record options =
  factorize :: bool
  rationalize :: bool
  invertible :: bool
  equivalent :: bool
  ignores :: "string set"

record jsonNode =
  node_ptr :: string
  node_val :: json

text \<open>
  The state of a \<open>Differ\<close>. The hasher's \<open>digest\<close> method and the two \<open>jsonLength\<close>
  methods (of one operation and of a run of operations, each applied to
  \<open>d.targetBytes\<close>) are defined outside \<open>differ.go\<close>; they are fields here, so that
  every result holds for any digest and any cost function. A \<open>nil\<close> hash map reads
  like an empty one and is the empty map.
\<close>

record differ =
  patch :: "operation list"
  hasher :: "json \<Rightarrow> 64 word"
  hashmap :: "64 word \<rightharpoonup> jsonNode"
  opLength :: "operation \<Rightarrow> nat"
  patchLength :: "operation list \<Rightarrow> nat"
  opts :: options
  ptr :: pointer


definition replace :: "differ \<Rightarrow> string \<Rightarrow> json \<Rightarrow> json \<Rightarrow> differ" where
  "replace d p src tgt =
     (let d1 = (if invertible (opts d)
                then d\<lparr>patch := patch_append (patch d) OperationTest emptyPtr p JNull src\<rparr>
                else d)
      in d1\<lparr>patch := patch_append (patch d1) OperationReplace emptyPtr p src tgt\<rparr>)"

definition remove :: "differ \<Rightarrow> string \<Rightarrow> json \<Rightarrow> differ" where
  "remove d p v =
     (let d1 = (if invertible (opts d)
                then d\<lparr>patch := patch_append (patch d) OperationTest emptyPtr p JNull v\<rparr>
                else d)
      in d1\<lparr>patch := patch_append (patch d1) OperationRemove emptyPtr p v JNull\<rparr>)"

definition findUnchanged :: "differ \<Rightarrow> json \<Rightarrow> string" where
  "findUnchanged d v =
     (case hashmap d (hasher d v) of
        Some node \<Rightarrow> node_ptr node
      | None \<Rightarrow> emptyPtr)"

text \<open>The scan of \<open>findRemoved\<close>, from index \<open>i\<close>; \<open>None\<close> is the source's \<open>-1\<close>.\<close>

fun findRemoved_from :: "operation list \<Rightarrow> json \<Rightarrow> nat \<Rightarrow> nat option" where
  "findRemoved_from [] v i = None"
| "findRemoved_from (op # ops) v i =
     (if Type op = OperationRemove \<and> deepEqual (OldValue op) v then Some i
      else findRemoved_from ops v (Suc i))"

definition findRemoved :: "differ \<Rightarrow> json \<Rightarrow> nat option" where
  "findRemoved d v = findRemoved_from (patch d) v 0"

definition add :: "differ \<Rightarrow> string \<Rightarrow> json \<Rightarrow> differ" where
  "add d p v =
     (if \<not> factorize (opts d)
      then d\<lparr>patch := patch_append (patch d) OperationAdd emptyPtr p JNull v\<rparr>
      else
        (case findRemoved d v of
           Some idx \<Rightarrow>
             (let op = patch d ! idx
              in if \<not> prefix (Path op) p
                 then d\<lparr>patch := patch_append (patch_remove (patch d) idx)
                                   OperationMove (Path op) p v v\<rparr>
                 else d)
         | None \<Rightarrow>
             (let uptr = findUnchanged d v
              in if length uptr \<noteq> 0 \<and> \<not> invertible (opts d)
                 then d\<lparr>patch := patch_append (patch d) OperationCopy uptr p JNull v\<rparr>
                 else d\<lparr>patch := patch_append (patch d) OperationAdd emptyPtr p JNull v\<rparr>)))"

section \<open>Sorting the keys\<close>

text \<open>
  \<open>insertionSort\<close> inserts each \<open>v[j]\<close> into the sorted run before it: the inner loop
  walks left past every element greater than the key. \<open>sort.Strings\<close> is the library
  sort. Go compares strings bytewise, which is the lexicographic order on \<open>char list\<close>.
\<close>

definition insertKey :: "string \<Rightarrow> string list \<Rightarrow> string list" where
  "insertKey key pre =
     (let n = length pre - length (takeWhile (\<lambda>x. key < x) (rev pre))
      in take n pre @ key # drop n pre)"

definition insertionSort :: "string list \<Rightarrow> string list" where
  "insertionSort v = foldl (\<lambda>pre key. insertKey key pre) (take 1 v) (drop 1 v)"

definition sortStrings :: "string list \<Rightarrow> string list" where
  "sortStrings v = (if length v < 20 then insertionSort v else sort v)"

section \<open>Order-insensitive array equality\<close>

text \<open>
  The counter map \<open>diff\<close> of \<open>unorderedDeepEqualSlice\<close>, as a list of entries with
  distinct keys: \<open>map_of\<close> reads it, \<open>AList.update\<close> writes an entry, \<open>AList.delete\<close>
  deletes one, and it has length zero when it is \<open>[]\<close>. An absent key reads as zero.
\<close>

definition bump :: "(64 word \<times> int) list \<Rightarrow> 64 word \<Rightarrow> (64 word \<times> int) list" where
  "bump m k = AList.update k ((case map_of m k of None \<Rightarrow> 0 | Some c \<Rightarrow> c) + 1) m"

text \<open>The second loop of \<open>unorderedDeepEqualSlice\<close>; \<open>None\<close> is its early \<open>return false\<close>.\<close>

fun unordered_check ::
  "(json \<Rightarrow> 64 word) \<Rightarrow> json list \<Rightarrow> (64 word \<times> int) list \<Rightarrow> (64 word \<times> int) list option" where
  "unordered_check h [] m = Some m"
| "unordered_check h (v # vs) m =
     (let k = h v
      in case map_of m k of
           None \<Rightarrow> None
         | Some c \<Rightarrow>
             (let m1 = AList.update k (c - 1) m
              in unordered_check h vs (if c - 1 = 0 then AList.delete k m1 else m1)))"

definition unorderedDeepEqualSlice :: "differ \<Rightarrow> json list \<Rightarrow> json list \<Rightarrow> bool" where
  "unorderedDeepEqualSlice d src tgt =
     (if length src \<noteq> length tgt then False
      else
        (let counts = foldl (\<lambda>m v. bump m (hasher d v)) [] src
         in case unordered_check (hasher d) tgt counts of
              None \<Rightarrow> False
            | Some m \<Rightarrow> length m = 0))"

section \<open>Rationalization\<close>

definition rationalizeLastOps :: "differ \<Rightarrow> pointer \<Rightarrow> json \<Rightarrow> json \<Rightarrow> nat \<Rightarrow> differ" where
  "rationalizeLastOps d p src tgt lastOpIdx =
     (let newOps0 = (if invertible (opts d)
                     then patch_append [] OperationTest emptyPtr (copy p) JNull src
                     else []);
          replaceOp = \<lparr>Type = OperationReplace, From = emptyPtr, Path = copy p,
                       OldValue = JNull, Value = tgt\<rparr>;
          newOps = newOps0 @ [replaceOp];
          curOps = drop lastOpIdx (patch d);
          newLen = opLength d replaceOp;
          curLen = patchLength d curOps
      in if curLen > newLen
         then d\<lparr>patch := take lastOpIdx (patch d) @ newOps\<rparr>
         else d)"

section \<open>The main diff pass\<close>

text \<open>
  The first loop of \<open>compareArrays\<close>: the trailing source elements, from index \<open>i\<close>, are
  removed at the fixed path \<open>psize\<close>.
\<close>

fun compareArrays_removed ::
  "differ \<Rightarrow> pointer \<Rightarrow> string \<Rightarrow> nat \<Rightarrow> json list \<Rightarrow> differ \<times> pointer" where
  "compareArrays_removed d p psize i [] = (d, p)"
| "compareArrays_removed d p psize i (v # vs) =
     (let p1 = appendIndex p i;
          d1 = (if string_of p1 \<notin> ignores (opts d) then remove d psize v else d);
          p2 = rewind p1
      in compareArrays_removed d1 p2 psize (Suc i) vs)"

text \<open>
  The last loop of \<open>compareArrays\<close>: the trailing target elements, from index \<open>i\<close>, are
  added at the append path. When the index path is ignored the pointer is not rewound:
  the result of the closing \<open>ptr.rewind()\<close> is dropped.
\<close>

fun compareArrays_added :: "differ \<Rightarrow> pointer \<Rightarrow> nat \<Rightarrow> json list \<Rightarrow> differ" where
  "compareArrays_added d p i [] = d"
| "compareArrays_added d p i (v # vs) =
     (let p1 = appendIndex p i
      in if string_of p1 \<notin> ignores (opts d)
         then (let p2 = rewind p1;
                   d1 = add d (copy (appendKey p2 ''-'')) v
               in compareArrays_added d1 p2 (Suc i) vs)
         else compareArrays_added d p1 (Suc i) vs)"

text \<open>Lines 117-120 of \<open>diff\<close>, after the comparison of two arrays or two objects.\<close>

definition rationalize_new ::
  "differ \<Rightarrow> pointer \<Rightarrow> json \<Rightarrow> json \<Rightarrow> nat \<Rightarrow> differ" where
  "rationalize_new d p src tgt sz =
     (if rationalize (opts d) \<and> length (patch d) > sz
      then rationalizeLastOps d p src tgt sz
      else d)"

lemma size_map_of_less:
  "map_of kvs k = Some v \<Longrightarrow> size v < size (JObj kvs)"
  by (induction kvs) (auto split: if_splits)

lemma size_list_take_le: "size_list f (take n xs) \<le> size_list f xs"
proof (induction xs arbitrary: n)
  case Nil
  then show ?case by simp
next
  case (Cons x xs)
  show ?case
  proof (cases n)
    case 0
    then show ?thesis by simp
  next
    case (Suc m)
    then show ?thesis using Cons [of m] by simp
  qed
qed

text \<open>
  \<open>diff\<close>, \<open>compareObjects\<close> and \<open>compareArrays\<close> call each other.
  \<open>compareObjects_keys\<close> is the loop over the sorted keys, \<open>compareArrays_elems\<close> the
  loop over the indices present in both arrays (from index \<open>i\<close>, over the remaining
  elements of both). The key set of \<open>cmpSet\<close> is the union of the two key sets; the order
  in which the keys are collected is lost in the sort. A type assertion on \<open>tgt\<close> cannot
  fail after \<open>areComparable\<close>; those branches return the Differ unchanged.
\<close>

function (sequential)
  diff :: "differ \<Rightarrow> pointer \<Rightarrow> json \<Rightarrow> json \<Rightarrow> differ"
and compareObjects ::
  "differ \<Rightarrow> pointer \<Rightarrow> (string \<times> json) list \<Rightarrow> (string \<times> json) list \<Rightarrow> differ"
and compareObjects_keys ::
  "differ \<Rightarrow> pointer \<Rightarrow> (string \<times> json) list \<Rightarrow> (string \<times> json) list \<Rightarrow> string list \<Rightarrow> differ"
and compareArrays :: "differ \<Rightarrow> pointer \<Rightarrow> json list \<Rightarrow> json list \<Rightarrow> differ"
and compareArrays_elems ::
  "differ \<Rightarrow> pointer \<Rightarrow> nat \<Rightarrow> json list \<Rightarrow> json list \<Rightarrow> differ \<times> pointer"
where
  "diff d p src tgt =
     (if src = JNull \<and> tgt = JNull then d
      else if copy p \<in> ignores (opts d) then d
      else if \<not> areComparable src tgt then
        (if isRoot p
         then d\<lparr>patch := patch_append (patch d) OperationAdd emptyPtr (copy p) src tgt\<rparr>
         else replace d (copy p) src tgt)
      else if deepValueEqual src tgt then d
      else
        (let sz = length (patch d)
         in case src of
              JArr val \<Rightarrow>
                (case tgt of
                   JArr tval \<Rightarrow> rationalize_new (compareArrays d p val tval) p src tgt sz
                 | _ \<Rightarrow> d)
            | JObj val \<Rightarrow>
                (case tgt of
                   JObj tval \<Rightarrow> rationalize_new (compareObjects d p val tval) p src tgt sz
                 | _ \<Rightarrow> d)
            | _ \<Rightarrow>
                (if \<not> deepValueEqual src tgt
                 then replace d (copy p) src tgt
                 else rationalize_new d p src tgt sz)))"
| "compareObjects d p src tgt =
     compareObjects_keys d p src tgt (sortStrings (remdups (map fst src @ map fst tgt)))"
| "compareObjects_keys d p src tgt [] = d"
| "compareObjects_keys d p src tgt (k # ks) =
     (let p1 = appendKey (snapshot p) k;
          d1 = (case map_of src k of
                  Some v1 \<Rightarrow>
                    (case map_of tgt k of
                       Some v2 \<Rightarrow> diff d p1 v1 v2
                     | None \<Rightarrow>
                         (if string_of p1 \<notin> ignores (opts d) then remove d (copy p1) v1 else d))
                | None \<Rightarrow>
                    (case map_of tgt k of
                       Some v2 \<Rightarrow>
                         (if string_of p1 \<notin> ignores (opts d) then add d (copy p1) v2 else d)
                     | None \<Rightarrow> d));
          p2 = rewind p1
      in compareObjects_keys d1 p2 src tgt ks)"
| "compareArrays d p src tgt =
     (let p0 = snapshot p;
          sz = min (length src) (length tgt);
          (d1, p1) = (if sz < length src
                      then compareArrays_removed d p0 (copy (appendIndex p0 sz)) sz
                             (drop sz src)
                      else (d, p0));
          (d2, p2) = (if equivalent (opts d1) \<and> unorderedDeepEqualSlice d1 src tgt
                      then (d1, p1)
                      else compareArrays_elems d1 p1 0 (take sz src) (take sz tgt))
      in compareArrays_added d2 p2 sz (drop sz tgt))"
| "compareArrays_elems d p i (x # xs) (y # ys) =
     (let p1 = appendIndex p i;
          d1 = diff d p1 x y;
          p2 = rewind p1
      in compareArrays_elems d1 p2 (Suc i) xs ys)"
| "compareArrays_elems d p i xs ys = (d, p)"
  by pat_completeness auto

termination
  apply (relation "measures
     [\<lambda>x. case x of
             Inl (Inl (d, p, s, t)) \<Rightarrow> size s
           | Inl (Inr (d, p, s, t)) \<Rightarrow> size (JObj s)
           | Inr (Inl (d, p, s, t, ks)) \<Rightarrow> size (JObj s)
           | Inr (Inr (Inl (d, p, s, t))) \<Rightarrow> size (JArr s)
           | Inr (Inr (Inr (d, p, i, xs, ys))) \<Rightarrow> size (JArr xs),
      \<lambda>x. case x of
             Inl (Inl (d, p, s, t)) \<Rightarrow> 3
           | Inl (Inr (d, p, s, t)) \<Rightarrow> 2
           | Inr (Inl (d, p, s, t, ks)) \<Rightarrow> 1
           | Inr (Inr (Inl (d, p, s, t))) \<Rightarrow> 2
           | Inr (Inr (Inr (d, p, i, xs, ys))) \<Rightarrow> 1,
      \<lambda>x. case x of
             Inr (Inl (d, p, s, t, ks)) \<Rightarrow> length ks
           | _ \<Rightarrow> 0]")
  subgoal by simp
  subgoal by simp
  subgoal by simp
  subgoal by simp
  subgoal using size_map_of_less by fastforce
  subgoal by simp
  subgoal for d p src tgt x xa
    using size_list_take_le [of size xa src] by auto
  subgoal by simp
  subgoal by simp
  done

section \<open>The preparatory pass\<close>

text \<open>
  \<open>prepare\<close> walks both trees and stores, for every pair of deeply equal values, the
  path under the value's digest (the last writer wins). Go's \<open>range\<close> over a map visits
  the entries in an order the language leaves open; \<open>rank m k\<close> is the position the
  run gives key \<open>k\<close> of map \<open>m\<close>, and \<open>range_order\<close> lists the entries by it. Every
  order of the entries is the order of some \<open>rank\<close>.
\<close>

definition range_order ::
  "((string \<times> json) list \<Rightarrow> string \<Rightarrow> nat) \<Rightarrow> (string \<times> json) list \<Rightarrow> (string \<times> json) list" where
  "range_order rank m = sort_key (\<lambda>kv. rank m (fst kv)) m"

lemma size_list_mset_cong:
  "mset xs = mset ys \<Longrightarrow> size_list f xs = size_list f ys"
proof -
  assume h: "mset xs = mset ys"
  have "sum_list (map f xs) = sum_list (map f ys)"
    using h by (metis mset_map sum_mset_sum_list)
  moreover have "length xs = length ys"
    using h by (rule mset_eq_length)
  ultimately show ?thesis
    by (simp add: size_list_conv_sum_list)
qed

lemma size_range_order: "size (JObj (range_order rank m)) = size (JObj m)"
  by (simp add: range_order_def size_list_mset_cong [of "sort_key _ m" m])

function (sequential)
  prepare ::
    "((string \<times> json) list \<Rightarrow> string \<Rightarrow> nat) \<Rightarrow> differ \<Rightarrow> pointer \<Rightarrow> json \<Rightarrow> json \<Rightarrow> differ"
and prepare_elems ::
    "((string \<times> json) list \<Rightarrow> string \<Rightarrow> nat) \<Rightarrow> differ \<Rightarrow> pointer \<Rightarrow> nat \<Rightarrow> json list \<Rightarrow> json list
      \<Rightarrow> differ"
and prepare_entries ::
    "((string \<times> json) list \<Rightarrow> string \<Rightarrow> nat) \<Rightarrow> differ \<Rightarrow> pointer \<Rightarrow> (string \<times> json) list
      \<Rightarrow> (string \<times> json) list \<Rightarrow> differ"
where
  "prepare rank d p src tgt =
     (if src = JNull \<and> tgt = JNull then d
      else if \<not> areComparable src tgt then d
      else if deepValueEqual src tgt
      then d\<lparr>hashmap := (hashmap d)(hasher d tgt \<mapsto> \<lparr>node_ptr = copy p, node_val = tgt\<rparr>)\<rparr>
      else
        (case src of
           JArr oarr \<Rightarrow>
             (case tgt of
                JArr narr \<Rightarrow> prepare_elems rank d p 0 oarr narr
              | _ \<Rightarrow> d)
         | JObj oobj \<Rightarrow>
             (case tgt of
                JObj nobj \<Rightarrow> prepare_entries rank d p (range_order rank oobj) nobj
              | _ \<Rightarrow> d)
         | _ \<Rightarrow> d))"
| "prepare_elems rank d p i (x # xs) (y # ys) =
     prepare_elems rank (prepare rank d (appendIndex p i) x y) p (Suc i) xs ys"
| "prepare_elems rank d p i xs ys = d"
| "prepare_entries rank d p [] nobj = d"
| "prepare_entries rank d p ((k, v1) # es) nobj =
     (let d1 = (case map_of nobj k of
                  Some v2 \<Rightarrow> prepare rank d (appendKey p k) v1 v2
                | None \<Rightarrow> d)
      in prepare_entries rank d1 p es nobj)"
  by pat_completeness auto
termination
  apply (relation "measures
     [\<lambda>x. case x of
             Inl (r, d, p, s, t) \<Rightarrow> size s
           | Inr (Inl (r, d, p, i, xs, ys)) \<Rightarrow> size (JArr xs)
           | Inr (Inr (r, d, p, es, nobj)) \<Rightarrow> size (JObj es),
      \<lambda>x. case x of
             Inl (r, d, p, s, t) \<Rightarrow> 1
           | _ \<Rightarrow> 0]")
  subgoal by simp
  subgoal by simp
  subgoal using size_range_order by simp
  subgoal by simp
  subgoal by simp
  subgoal by simp
  subgoal by simp
  done

section \<open>Compare\<close>

text \<open>
  \<open>Compare\<close> runs the preparatory pass when \<open>factorize\<close> is set, then the main pass.
  The result of the source's \<open>d.ptr.reset()\<close> is dropped, so \<open>d.ptr\<close> is passed on as
  it is. \<open>newDiffer\<close> is the zero value of a \<open>Differ\<close> with its collaborators and options.
\<close>

definition Compare ::
  "((string \<times> json) list \<Rightarrow> string \<Rightarrow> nat) \<Rightarrow> differ \<Rightarrow> json \<Rightarrow> json \<Rightarrow> differ" where
  "Compare rank d src tgt =
     (let d1 = (if factorize (opts d) then prepare rank d (ptr d) src tgt else d)
      in diff d1 (ptr d1) src tgt)"

definition newDiffer ::
  "(json \<Rightarrow> 64 word) \<Rightarrow> (operation \<Rightarrow> nat) \<Rightarrow> (operation list \<Rightarrow> nat) \<Rightarrow> options \<Rightarrow> differ" where
  "newDiffer h ol pl os =
     \<lparr>patch = [], hasher = h, hashmap = Map.empty, opLength = ol, patchLength = pl,
      opts = os, ptr = \<lparr>buf = [], sep = 0\<rparr>\<rparr>"

section \<open>A concrete encoder, hasher and cost\<close>

text \<open>
  Modelled from the spec: the encoder, the Content Hasher and the cost estimate of the
  Patch Model are not part of \<open>differ.go\<close>. \<open>encode\<close> writes a value as compact JSON
  text (string contents are written as they are). \<open>digest\<close> hashes that text, so that
  deeply equal values have the same digest. \<open>opJsonLength\<close> is the serialized size of
  one operation (its type, its path, the source path of a move or copy, the value of an
  add, replace or test); \<open>patchJsonLength\<close> adds the separators between operations.
  They instantiate the Differ's collaborators at concrete inputs only.
\<close>

fun intercalate :: "string \<Rightarrow> string list \<Rightarrow> string" where
  "intercalate s [] = []"
| "intercalate s [x] = x"
| "intercalate s (x # y # ys) = x @ s @ intercalate s (y # ys)"

fun encode :: "json \<Rightarrow> string" where
  "encode JNull = ''null''"
| "encode (JBool b) = (if b then ''true'' else ''false'')"
| "encode (JNum n) = (if n < 0 then CHR ''-'' # itoa (nat (- n)) else itoa (nat n))"
| "encode (JStr s) = CHR 0x22 # s @ [CHR 0x22]"
| "encode (JArr xs) = CHR ''['' # intercalate '','' (map encode xs) @ '']''"
| "encode (JObj kvs) =
     CHR ''{'' #
     intercalate '',''
       (map (\<lambda>kv. CHR 0x22 # fst kv @ [CHR 0x22, CHR '':''] @ encode (snd kv)) kvs) @ ''}''"

definition digest :: "json \<Rightarrow> 64 word" where
  "digest v = foldl (\<lambda>h c. h * 31 + of_nat (of_char c)) 7 (encode v)"

fun optype_name :: "optype \<Rightarrow> string" where
  "optype_name OperationAdd = ''add''"
| "optype_name OperationRemove = ''remove''"
| "optype_name OperationReplace = ''replace''"
| "optype_name OperationMove = ''move''"
| "optype_name OperationCopy = ''copy''"
| "optype_name OperationTest = ''test''"

definition opJsonLength :: "operation \<Rightarrow> nat" where
  "opJsonLength op =
     19 + length (optype_name (Type op)) + length (Path op)
     + (if Type op \<in> {OperationAdd, OperationReplace, OperationTest}
        then 9 + length (encode (Value op)) else 0)
     + (if Type op \<in> {OperationMove, OperationCopy}
        then 10 + length (From op) else 0)"

definition patchJsonLength :: "operation list \<Rightarrow> nat" where
  "patchJsonLength ops = sum_list (map opJsonLength ops) + (length ops - 1)"

definition config :: "bool \<Rightarrow> bool \<Rightarrow> bool \<Rightarrow> bool \<Rightarrow> string set \<Rightarrow> options" where
  "config f r i e ign =
     \<lparr>factorize = f, rationalize = r, invertible = i, equivalent = e, ignores = ign\<rparr>"

definition differ0 :: "options \<Rightarrow> differ" where
  "differ0 os = newDiffer digest opJsonLength patchJsonLength os"

definition rank0 :: "(string \<times> json) list \<Rightarrow> string \<Rightarrow> nat" where
  "rank0 m k = 0"

section \<open>JSON Pointer text and patch application\<close>

text \<open>
  Modelled from the spec: applying a patch is not part of the repository. The spec's
  operations are those of RFC 6902, addressed by RFC 6901 pointers. \<open>render\<close> is the
  pointer text of a list of tokens, \<open>parse_pointer\<close> reads it back. \<open>lookup\<close> finds
  the value at a path; a token selects a member of an object, or an element of an array
  when it is a decimal index without leading zeros. \<open>update_at f\<close> replaces the value at
  an existing path by what \<open>f\<close> makes of it. An add inserts a member (keeping the
  entries in key order), inserts an element before an index, or appends one at \<open>-\<close>; at
  the root it replaces the document. A remove and a replace need their target to exist;
  a test compares by deep equality; a move is a remove followed by an add of the removed
  value and is refused into its own descendant; a copy adds the value found at its
  source. \<open>apply_patch\<close> applies the operations in order and stops at the first
  failure (\<open>None\<close>).
\<close>

fun render :: "string list \<Rightarrow> string" where
  "render [] = []"
| "render (t # ts) = CHR ''/'' # escapeKey t @ render ts"

fun unescapeKey :: "string \<Rightarrow> string" where
  "unescapeKey (c # e # cs) =
     (if c = CHR ''~'' \<and> e = CHR ''0'' then CHR ''~'' # unescapeKey cs
      else if c = CHR ''~'' \<and> e = CHR ''1'' then CHR ''/'' # unescapeKey cs
      else c # unescapeKey (e # cs))"
| "unescapeKey cs = cs"

fun split_tokens :: "string \<Rightarrow> string list" where
  "split_tokens [] = [[]]"
| "split_tokens (c # cs) =
     (if c = CHR ''/'' then [] # split_tokens cs
      else (case split_tokens cs of
              [] \<Rightarrow> [[c]]
            | t # ts \<Rightarrow> (c # t) # ts))"

definition parse_pointer :: "string \<Rightarrow> string list option" where
  "parse_pointer s =
     (case s of
        [] \<Rightarrow> Some []
      | c # cs \<Rightarrow> if c = CHR ''/'' then Some (map unescapeKey (split_tokens cs)) else None)"

definition is_digit :: "char \<Rightarrow> bool" where
  "is_digit c = (48 \<le> (of_char c :: nat) \<and> (of_char c :: nat) \<le> 57)"

fun digits_val :: "string \<Rightarrow> nat \<Rightarrow> nat option" where
  "digits_val [] acc = Some acc"
| "digits_val (c # cs) acc =
     (if is_digit c then digits_val cs (acc * 10 + (of_char c - 48)) else None)"

definition parse_index :: "string \<Rightarrow> nat option" where
  "parse_index t =
     (if t = [] \<or> (hd t = CHR ''0'' \<and> length t > 1) then None else digits_val t 0)"



fun lookup :: "json \<Rightarrow> string list \<Rightarrow> json option" where
  "lookup v [] = Some v"
| "lookup (JObj kvs) (t # ts) =
     (case map_of kvs t of None \<Rightarrow> None | Some c \<Rightarrow> lookup c ts)"
| "lookup (JArr xs) (t # ts) =
     (case parse_index t of
        None \<Rightarrow> None
      | Some i \<Rightarrow> if i < length xs then lookup (xs ! i) ts else None)"
| "lookup _ (t # ts) = None"

fun update_at :: "(json \<Rightarrow> json option) \<Rightarrow> json \<Rightarrow> string list \<Rightarrow> json option" where
  "update_at f v [] = f v"
| "update_at f (JObj kvs) (t # ts) =
     (case map_of kvs t of
        None \<Rightarrow> None
      | Some c \<Rightarrow> map_option (\<lambda>c'. JObj (AList.update t c' kvs)) (update_at f c ts))"
| "update_at f (JArr xs) (t # ts) =
     (case parse_index t of
        None \<Rightarrow> None
      | Some i \<Rightarrow>
          if i < length xs
          then map_option (\<lambda>c'. JArr (xs[i := c'])) (update_at f (xs ! i) ts)
          else None)"
| "update_at f _ (t # ts) = None"

fun obj_put :: "string \<Rightarrow> json \<Rightarrow> (string \<times> json) list \<Rightarrow> (string \<times> json) list" where
  "obj_put k v [] = [(k, v)]"
| "obj_put k v ((k', v') # rest) =
     (if k < k' then (k, v) # (k', v') # rest
      else if k = k' then (k, v) # rest
      else (k', v') # obj_put k v rest)"

definition add_child :: "string \<Rightarrow> json \<Rightarrow> json \<Rightarrow> json option" where
  "add_child t x parent =
     (case parent of
        JObj kvs \<Rightarrow> Some (JObj (obj_put t x kvs))
      | JArr xs \<Rightarrow>
          if t = ''-'' then Some (JArr (xs @ [x]))
          else (case parse_index t of
                  None \<Rightarrow> None
                | Some i \<Rightarrow> if i \<le> length xs then Some (JArr (take i xs @ x # drop i xs)) else None)
      | _ \<Rightarrow> None)"

definition remove_child :: "string \<Rightarrow> json \<Rightarrow> json option" where
  "remove_child t parent =
     (case parent of
        JObj kvs \<Rightarrow> if map_of kvs t \<noteq> None then Some (JObj (AList.delete t kvs)) else None
      | JArr xs \<Rightarrow>
          (case parse_index t of
             None \<Rightarrow> None
           | Some i \<Rightarrow> if i < length xs then Some (JArr (take i xs @ drop (Suc i) xs)) else None)
      | _ \<Rightarrow> None)"

definition add_at :: "json \<Rightarrow> string list \<Rightarrow> json \<Rightarrow> json option" where
  "add_at doc path x =
     (if path = [] then Some x else update_at (add_child (last path) x) doc (butlast path))"

definition remove_at :: "json \<Rightarrow> string list \<Rightarrow> json option" where
  "remove_at doc path =
     (if path = [] then None else update_at (remove_child (last path)) doc (butlast path))"

definition replace_at :: "json \<Rightarrow> string list \<Rightarrow> json \<Rightarrow> json option" where
  "replace_at doc path x = update_at (\<lambda>_. Some x) doc path"

definition test_at :: "json \<Rightarrow> string list \<Rightarrow> json \<Rightarrow> json option" where
  "test_at doc path x =
     (case lookup doc path of
        None \<Rightarrow> None
      | Some y \<Rightarrow> if deepEqual y x then Some doc else None)"

definition apply_op :: "operation \<Rightarrow> json \<Rightarrow> json option" where
  "apply_op op doc =
     (case parse_pointer (Path op) of
        None \<Rightarrow> None
      | Some path \<Rightarrow>
          (case Type op of
             OperationAdd \<Rightarrow> add_at doc path (Value op)
           | OperationRemove \<Rightarrow> remove_at doc path
           | OperationReplace \<Rightarrow> replace_at doc path (Value op)
           | OperationTest \<Rightarrow> test_at doc path (Value op)
           | OperationMove \<Rightarrow>
               (case parse_pointer (From op) of
                  None \<Rightarrow> None
                | Some from \<Rightarrow>
                    if strict_prefix from path then None
                    else (case lookup doc from of
                            None \<Rightarrow> None
                          | Some y \<Rightarrow>
                              (case remove_at doc from of
                                 None \<Rightarrow> None
                               | Some doc1 \<Rightarrow> add_at doc1 path y)))
           | OperationCopy \<Rightarrow>
               (case parse_pointer (From op) of
                  None \<Rightarrow> None
                | Some from \<Rightarrow>
                    (case lookup doc from of
                       None \<Rightarrow> None
                     | Some y \<Rightarrow> add_at doc path y))))"

fun apply_patch :: "operation list \<Rightarrow> json \<Rightarrow> json option" where
  "apply_patch [] doc = Some doc"
| "apply_patch (op # ops) doc =
     (case apply_op op doc of None \<Rightarrow> None | Some doc1 \<Rightarrow> apply_patch ops doc1)"

abbreviation put :: "json \<Rightarrow> string list \<Rightarrow> json \<Rightarrow> json option" where
  "put doc q s \<equiv> update_at (\<lambda>_. Some s) doc q"




definition rank_a_last :: "(string \<times> json) list \<Rightarrow> string \<Rightarrow> nat" where
  "rank_a_last m k = (if k = ''a'' then 1 else 0)"

declare diff.simps [simp del] compareObjects.simps [simp del] compareArrays.simps [simp del]
  prepare.simps [simp del]

section \<open>Basic facts\<close>

lemma map_of_distinct_self:
  "distinct (map fst kvs) \<Longrightarrow> kv \<in> set kvs \<Longrightarrow> map_of kvs (fst kv) = Some (snd kv)"
  by (cases kv) simp

lemma deepValueEqual_refl: "wf_json a \<Longrightarrow> deepValueEqual a a"
proof (induction a)
  case (JArr xs)
  then show ?case by (simp add: list_all2_same)
next
  case (JObj kvs)
  have "\<And>kv. kv \<in> set kvs \<Longrightarrow> deepValueEqual (snd kv) (snd kv)"
  proof -
    fix kv assume h: "kv \<in> set kvs"
    obtain k v where kv: "kv = (k, v)" by (cases kv)
    have "v \<in> Basic_BNFs.snds kv" by (simp add: kv)
    then show "deepValueEqual (snd kv) (snd kv)"
      using JObj.IH [of kv v] JObj.prems h by (auto simp: kv)
  qed
  then show ?case
    using JObj.prems by (auto simp: map_of_distinct_self)
qed simp_all

text \<open>The preparatory pass writes the hash index only.\<close>

lemma prepare_frame:
  "patch (prepare rank d p s t) = patch d \<and> opts (prepare rank d p s t) = opts d \<and>
   ptr (prepare rank d p s t) = ptr d \<and> hasher (prepare rank d p s t) = hasher d \<and>
   opLength (prepare rank d p s t) = opLength d \<and>
   patchLength (prepare rank d p s t) = patchLength d"
  "patch (prepare_elems rank d p i xs ys) = patch d \<and>
   opts (prepare_elems rank d p i xs ys) = opts d \<and>
   ptr (prepare_elems rank d p i xs ys) = ptr d \<and>
   hasher (prepare_elems rank d p i xs ys) = hasher d \<and>
   opLength (prepare_elems rank d p i xs ys) = opLength d \<and>
   patchLength (prepare_elems rank d p i xs ys) = patchLength d"
  "patch (prepare_entries rank d p es nobj) = patch d \<and>
   opts (prepare_entries rank d p es nobj) = opts d \<and>
   ptr (prepare_entries rank d p es nobj) = ptr d \<and>
   hasher (prepare_entries rank d p es nobj) = hasher d \<and>
   opLength (prepare_entries rank d p es nobj) = opLength d \<and>
   patchLength (prepare_entries rank d p es nobj) = patchLength d"
proof (induction rank d p s t and rank d p i xs ys and rank d p es nobj
       rule: prepare_prepare_elems_prepare_entries.induct)
  case (1 rank d p src tgt)
  then show ?case
    by (auto split: json.splits simp: prepare.simps)
next
  case (5 rank d p k v1 es nobj)
  then show ?case
    by (auto split: option.splits simp: Let_def)
qed simp_all

lemma diff_same: "wf_json a \<Longrightarrow> diff d p a a = d"
  by (simp add: diff.simps deepValueEqual_refl areComparable_def)

section \<open>Comparing a tree with itself\<close>

text \<open>
  C10. For every tree \<open>a\<close> and every configuration (the four flags and the ignore set
  in \<open>os\<close>, any hasher and cost), \<open>Compare a a\<close> on a new Differ leaves the patch empty.
  Trees are well formed: the keys of an object are distinct.
\<close>

theorem compare_same_empty:
  "wf_json a \<Longrightarrow> patch (Compare rank (newDiffer h ol pl os) a a) = []"
  by (simp add: Compare_def diff_same prepare_frame newDiffer_def)

theorem compare_same_empty_witness:
  "wf_json (JObj [(''a'', JArr [JNum 1, JNull]), (''b'', JStr ''x'')]) \<and>
   patch (Compare rank0 (differ0 (config True True True True {''/b''}))
            (JObj [(''a'', JArr [JNum 1, JNull]), (''b'', JStr ''x'')])
            (JObj [(''a'', JArr [JNum 1, JNull]), (''b'', JStr ''x'')])) = []"
proof -
  have w: "wf_json (JObj [(''a'', JArr [JNum 1, JNull]), (''b'', JStr ''x'')])"
    by code_simp
  show ?thesis
    using w compare_same_empty [OF w, of rank0 digest opJsonLength patchJsonLength
        "config True True True True {''/b''}"]
    by (simp add: differ0_def)
qed

section \<open>Equivalence mode\<close>

lemma unordered_123_321:
  "unorderedDeepEqualSlice d [JNum 1, JNum 2, JNum 3] [JNum 3, JNum 2, JNum 1]"
  by (simp add: unorderedDeepEqualSlice_def bump_def Let_def)

lemma diff_equivalent_123_321:
  assumes "equivalent (opts d)"
  shows "patch (diff d p (JArr [JNum 1, JNum 2, JNum 3]) (JArr [JNum 3, JNum 2, JNum 1]))
         = patch d"
  using assms unordered_123_321 [of d]
  by (simp add: diff.simps compareArrays.simps rationalize_new_def areComparable_def Let_def)

lemma equivalent_reorder:
  "patch (Compare rank (newDiffer h ol pl (os\<lparr>equivalent := True\<rparr>))
            (JArr [JNum 1, JNum 2, JNum 3]) (JArr [JNum 3, JNum 2, JNum 1])) = []"
proof -
  let ?d = "newDiffer h ol pl (os\<lparr>equivalent := True\<rparr>)"
  let ?d1 = "if factorize (opts ?d)
             then prepare rank ?d (ptr ?d) (JArr [JNum 1, JNum 2, JNum 3])
                    (JArr [JNum 3, JNum 2, JNum 1])
             else ?d"
  have o: "opts ?d1 = opts ?d" and p: "patch ?d1 = patch ?d"
    by (simp_all add: prepare_frame)
  have "equivalent (opts ?d1)"
    unfolding o by (simp add: newDiffer_def)
  then have "patch (diff ?d1 (ptr ?d1) (JArr [JNum 1, JNum 2, JNum 3])
                      (JArr [JNum 3, JNum 2, JNum 1])) = patch ?d1"
    by (rule diff_equivalent_123_321)
  then show ?thesis
    unfolding Compare_def Let_def p by (simp add: newDiffer_def)
qed

section \<open>The add step with factorization\<close>

text \<open>
  C2. With \<open>factorize\<close> set, the add step is to emit an operation for the value in
  every case. It does not: a patch holds the removal of \<open>1\<close> at \<open>/a\<close>, and \<open>1\<close> is added
  at \<open>/ab\<close>. The removal is found, its path is a prefix of \<open>/ab\<close>, and the step returns
  with the patch as it was: no move, no copy, no add. \<open>Compare {"a":1} {"ab":1}\<close>
  reaches that state and yields the removal alone.
\<close>

theorem add_after_prefix_removal_emits_nothing:
  "patch (add ((differ0 (config True False False False {}))
                 \<lparr>patch := [\<lparr>Type = OperationRemove, From = emptyPtr, Path = ''/a'',
                              OldValue = JNum 1, Value = JNull\<rparr>]\<rparr>)
            ''/ab'' (JNum 1))
   = [\<lparr>Type = OperationRemove, From = emptyPtr, Path = ''/a'', OldValue = JNum 1,
        Value = JNull\<rparr>] \<and>
   patch (Compare rank0 (differ0 (config True False False False {}))
            (JObj [(''a'', JNum 1)]) (JObj [(''ab'', JNum 1)]))
   = [\<lparr>Type = OperationRemove, From = emptyPtr, Path = ''/a'', OldValue = JNum 1,
        Value = JNull\<rparr>]"
  by code_simp

section \<open>Determinism\<close>

text \<open>
  C3. Two runs of \<open>Compare\<close> on the same inputs are to produce the same patch. With
  \<open>factorize\<close> set they need not: the preparatory pass visits the entries of
  \<open>{"a":1,"b":1}\<close> in the order of the run, both values have the same digest, and the
  last one visited stays in the hash index. The copy that adds \<open>/c\<close> reads from \<open>/b\<close>
  in one run and from \<open>/a\<close> in another.
\<close>

theorem compare_copy_source_depends_on_range_order:
  "patch (Compare rank0 (differ0 (config True False False False {}))
            (JObj [(''a'', JNum 1), (''b'', JNum 1)])
            (JObj [(''a'', JNum 1), (''b'', JNum 1), (''c'', JNum 1)]))
   = [\<lparr>Type = OperationCopy, From = ''/b'', Path = ''/c'', OldValue = JNull,
        Value = JNum 1\<rparr>] \<and>
   patch (Compare rank_a_last (differ0 (config True False False False {}))
            (JObj [(''a'', JNum 1), (''b'', JNum 1)])
            (JObj [(''a'', JNum 1), (''b'', JNum 1), (''c'', JNum 1)]))
   = [\<lparr>Type = OperationCopy, From = ''/a'', Path = ''/c'', OldValue = JNull,
        Value = JNum 1\<rparr>]"
  by code_simp

section \<open>Ignored paths\<close>

text \<open>
  C6. An ignored location is to generate no operation and to leave the operations of
  the other locations as they are. In the loop over the appended elements of an array
  the pointer is not rewound after an ignored index, so the next index is checked under
  the wrong path. With \<open>/1\<close> and \<open>/2\<close> ignored, \<open>Compare [0] [0,1,2]\<close> emits an add for
  the element at \<open>/2\<close>; with \<open>/1\<close> and \<open>/1/2\<close> ignored it emits nothing for the element
  at \<open>/2\<close>, which is not ignored. The scenario of the spec holds:
  \<open>Compare {"a":1,"b":2} {"a":9,"b":2}\<close> with \<open>/a\<close> ignored yields the empty patch.
\<close>

theorem ignored_appended_index_not_rewound:
  "patch (Compare rank0 (differ0 (config False False False False {''/1'', ''/2''}))
            (JArr [JNum 0]) (JArr [JNum 0, JNum 1, JNum 2]))
   = [\<lparr>Type = OperationAdd, From = emptyPtr, Path = ''/-'', OldValue = JNull,
        Value = JNum 2\<rparr>] \<and>
   patch (Compare rank0 (differ0 (config False False False False {''/1'', ''/1/2''}))
            (JArr [JNum 0]) (JArr [JNum 0, JNum 1, JNum 2])) = [] \<and>
   patch (Compare rank0 (differ0 (config False False False False {''/a''}))
            (JObj [(''a'', JNum 1), (''b'', JNum 2)])
            (JObj [(''a'', JNum 9), (''b'', JNum 2)])) = []"
  by code_simp

section \<open>Pointer text\<close>

lemma unescape_plain_head:
  "c \<noteq> CHR ''~'' \<Longrightarrow> unescapeKey (c # cs) = c # unescapeKey cs"
  by (cases cs) simp_all

lemma unescape_escape [simp]: "unescapeKey (escapeKey s) = s"
  by (induction s) (simp_all add: unescape_plain_head)

lemma slash_notin_escape [simp]: "CHR ''/'' \<notin> set (escapeKey s)"
  by (induction s) auto

lemma split_tokens_nonempty [simp]: "split_tokens s \<noteq> []"
  by (induction s) (auto split: list.splits)

lemma split_tokens_app:
  "CHR ''/'' \<notin> set t \<Longrightarrow> split_tokens (t @ CHR ''/'' # rest) = t # split_tokens rest"
  by (induction t) auto

lemma split_tokens_plain: "CHR ''/'' \<notin> set t \<Longrightarrow> split_tokens t = [t]"
  by (induction t) auto

lemma split_tokens_render:
  "split_tokens (escapeKey t @ render ts) = map escapeKey (t # ts)"
proof (induction ts arbitrary: t)
  case Nil
  then show ?case by (simp add: split_tokens_plain)
next
  case (Cons u us)
  then show ?case by (simp add: split_tokens_app)
qed

lemma parse_render [simp]: "parse_pointer (render q) = Some q"
proof (cases q)
  case Nil
  then show ?thesis by (simp add: parse_pointer_def)
next
  case (Cons t ts)
  have "map unescapeKey (map escapeKey (t # ts)) = t # ts"
    by (simp add: map_idI)
  then show ?thesis
    using Cons split_tokens_render [of t ts] by (simp add: parse_pointer_def)
qed

lemma render_append: "render (q @ r) = render q @ render r"
  by (induction q) auto

lemma render_eq_Nil [simp]: "render q = [] \<longleftrightarrow> q = []"
  by (cases q) auto

lemma render_inj: "render q = render r \<Longrightarrow> q = r"
  by (metis parse_render option.inject)

lemma escape_plain: "CHR ''~'' \<notin> set t \<Longrightarrow> CHR ''/'' \<notin> set t \<Longrightarrow> escapeKey t = t"
  by (induction t) auto

lemma of_char_digit_char: "n < 10 \<Longrightarrow> (of_char (digit_char n) :: nat) = 48 + n"
  by (simp add: digit_char_def)

lemma is_digit_digit_char [simp]: "n < 10 \<Longrightarrow> is_digit (digit_char n)"
  by (simp add: is_digit_def of_char_digit_char)

lemma digits_val_snoc:
  "digits_val (cs @ [c]) acc =
     (case digits_val cs acc of
        None \<Rightarrow> None
      | Some a \<Rightarrow> if is_digit c then Some (a * 10 + (of_char c - 48)) else None)"
  by (induction cs arbitrary: acc) auto

lemma digits_val_itoa: "digits_val (itoa n) 0 = Some n"
proof (induction n rule: itoa.induct)
  case (1 n)
  show ?case
  proof (cases "n < 10")
    case True
    then show ?thesis
      by (subst itoa.simps) (simp add: of_char_digit_char)
  next
    case False
    then have "digits_val (itoa (n div 10)) 0 = Some (n div 10)"
      using 1 by simp
    then show ?thesis
      using False by (subst itoa.simps) (simp add: digits_val_snoc of_char_digit_char)
  qed
qed

lemma itoa_nonempty [simp]: "itoa n \<noteq> []"
  by (subst itoa.simps) simp

lemma digit_char_eq_zero: "n < 10 \<Longrightarrow> digit_char n = CHR ''0'' \<longleftrightarrow> n = 0"
proof -
  assume h: "n < 10"
  have "(of_char (digit_char n) :: nat) = 48 + n"
    using h by (rule of_char_digit_char)
  moreover have "(of_char (CHR ''0'') :: nat) = 48" by simp
  moreover have "digit_char 0 = CHR ''0''" by code_simp
  ultimately show ?thesis by auto
qed

lemma hd_itoa_zero: "hd (itoa n) = CHR ''0'' \<Longrightarrow> n = 0"
proof (induction n rule: itoa.induct)
  case (1 n)
  show ?case
  proof (cases "n < 10")
    case True
    then show ?thesis
      using 1(2) by (subst (asm) itoa.simps) (simp add: digit_char_eq_zero)
  next
    case False
    then have "hd (itoa n) = hd (itoa (n div 10))"
      by (subst itoa.simps) simp
    then have "n div 10 = 0" using 1 False by simp
    then show ?thesis using False by simp
  qed
qed

lemma length_itoa_zero: "length (itoa 0) = 1"
  by (subst itoa.simps) simp

lemma parse_index_itoa [simp]: "parse_index (itoa n) = Some n"
proof -
  have "\<not> (hd (itoa n) = CHR ''0'' \<and> length (itoa n) > 1)"
    using hd_itoa_zero [of n] length_itoa_zero by auto
  then show ?thesis
    by (simp add: parse_index_def digits_val_itoa)
qed

lemma itoa_digits: "c \<in> set (itoa n) \<Longrightarrow> is_digit c"
proof (induction n rule: itoa.induct)
  case (1 n)
  show ?case
  proof (cases "n < 10")
    case True
    then show ?thesis using 1(2) by (subst (asm) itoa.simps) simp
  next
    case False
    then show ?thesis using 1 by (subst (asm) (2) itoa.simps) auto
  qed
qed


lemma escape_itoa [simp]: "escapeKey (itoa n) = itoa n"
proof (rule escape_plain)
  have "\<not> is_digit (CHR ''~'')" by (simp add: is_digit_def)
  then show "CHR ''~'' \<notin> set (itoa n)"
    using itoa_digits by blast
  have "\<not> is_digit (CHR ''/'')" by (simp add: is_digit_def)
  then show "CHR ''/'' \<notin> set (itoa n)"
    using itoa_digits by blast
qed

lemma itoa_neq_dash [simp]: "itoa n \<noteq> ''-''"
proof
  assume "itoa n = ''-''"
  then have "CHR ''-'' \<in> set (itoa n)" by simp
  then have "is_digit (CHR ''-'')" by (rule itoa_digits)
  then show False by (simp add: is_digit_def)
qed

section \<open>Lookup and update along a path\<close>

lemma lookup_append:
  "lookup doc (q @ r) = (case lookup doc q of None \<Rightarrow> None | Some v \<Rightarrow> lookup v r)"
  by (induction doc q rule: lookup.induct) (simp_all split: option.splits)

lemma update_at_append:
  "update_at f doc (q @ r) = update_at (\<lambda>v. update_at f v r) doc q"
  by (induction f doc q rule: update_at.induct) (simp_all split: option.splits)

lemma update_at_local:
  "lookup doc q = Some s \<Longrightarrow>
   update_at f doc q = (case f s of None \<Rightarrow> None | Some s' \<Rightarrow> put doc q s')"
proof (induction doc q rule: lookup.induct)
  case (1 v)
  then show ?case by (simp split: option.splits)
next
  case (2 kvs t ts)
  then show ?case by (cases "map_of kvs t") (simp_all split: option.splits)
next
  case (3 xs t ts)
  then show ?case
    by (cases "parse_index t") (simp_all split: option.splits if_splits)
qed simp_all


lemma put_defined:
  "lookup doc q = Some s \<Longrightarrow> \<exists>doc'. put doc q s' = Some doc'"
proof (induction doc q rule: lookup.induct)
  case (2 kvs t ts)
  then show ?case by (cases "map_of kvs t") auto
next
  case (3 xs t ts)
  then show ?case by (cases "parse_index t") (auto split: if_splits)
qed simp_all

lemma lookup_put:
  "put doc q s' = Some doc' \<Longrightarrow> lookup doc' q = Some s'"
proof (induction doc q arbitrary: doc' rule: lookup.induct)
  case (2 kvs t ts)
  then show ?case
    by (cases "map_of kvs t") (auto simp: update_conv')
next
  case (3 xs t ts)
  then show ?case
    by (cases "parse_index t") (auto split: if_splits)
qed simp_all

lemma put_put:
  "put doc q s1 = Some doc1 \<Longrightarrow> put doc1 q s2 = put doc q s2"
proof (induction doc q arbitrary: doc1 rule: lookup.induct)
  case (2 kvs t ts)
  then show ?case
    by (cases "map_of kvs t") (auto simp: update_conv')
next
  case (3 xs t ts)
  then show ?case
    by (cases "parse_index t") (auto split: if_splits)
qed simp_all

lemma put_same:
  "lookup doc q = Some s \<Longrightarrow> put doc q s = Some doc"
proof (induction doc q rule: lookup.induct)
  case (2 kvs t ts)
  then show ?case
    by (cases "map_of kvs t") (auto simp: update_triv)
next
  case (3 xs t ts)
  then show ?case
    by (cases "parse_index t") (auto split: if_splits)
qed simp_all

definition local_ok :: "string list \<Rightarrow> operation list \<Rightarrow> json \<Rightarrow> json \<Rightarrow> bool" where
  "local_ok q ops s s' \<longleftrightarrow>
     (\<forall>doc. lookup doc q = Some s \<longrightarrow> apply_patch ops doc = put doc q s')"

definition mk_op :: "optype \<Rightarrow> string \<Rightarrow> string \<Rightarrow> json \<Rightarrow> json \<Rightarrow> operation" where
  "mk_op typ from path src tgt =
     \<lparr>Type = typ, From = from, Path = path, OldValue = src, Value = tgt\<rparr>"

lemma patch_append_mk: "patch_append p typ from path src tgt = p @ [mk_op typ from path src tgt]"
  by (simp add: patch_append_def mk_op_def)

lemma mk_op_sel [simp]:
  "Type (mk_op typ from path src tgt) = typ"
  "From (mk_op typ from path src tgt) = from"
  "Path (mk_op typ from path src tgt) = path"
  "OldValue (mk_op typ from path src tgt) = src"
  "Value (mk_op typ from path src tgt) = tgt"
  by (simp_all add: mk_op_def)

lemma apply_patch_append:
  "apply_patch (a @ b) doc =
     (case apply_patch a doc of None \<Rightarrow> None | Some doc1 \<Rightarrow> apply_patch b doc1)"
  by (induction a arbitrary: doc) (simp_all split: option.splits)

lemma local_ok_nil: "local_ok q [] s s"
  by (simp add: local_ok_def put_same)

lemma local_ok_seq:
  assumes "local_ok q a s s1" and "local_ok q b s1 s2"
  shows "local_ok q (a @ b) s s2"
  unfolding local_ok_def
proof (intro allI impI)
  fix doc assume h: "lookup doc q = Some s"
  obtain doc1 where d1: "put doc q s1 = Some doc1"
    using put_defined [OF h] by blast
  have a: "apply_patch a doc = Some doc1"
    using assms(1) h d1 by (simp add: local_ok_def)
  have "lookup doc1 q = Some s1"
    using d1 by (rule lookup_put)
  then have "apply_patch b doc1 = put doc1 q s2"
    using assms(2) by (simp add: local_ok_def)
  also have "\<dots> = put doc q s2"
    using d1 by (rule put_put)
  finally show "apply_patch (a @ b) doc = put doc q s2"
    using a by (simp add: apply_patch_append)
qed

lemma local_ok_lift:
  assumes ok: "local_ok (q @ r) ops v v'"
    and l: "lookup s r = Some v"
    and p: "put s r v' = Some s'"
  shows "local_ok q ops s s'"
  unfolding local_ok_def
proof (intro allI impI)
  fix doc assume h: "lookup doc q = Some s"
  have "lookup doc (q @ r) = Some v"
    using h l by (simp add: lookup_append)
  then have "apply_patch ops doc = put doc (q @ r) v'"
    using ok by (simp add: local_ok_def)
  also have "\<dots> = update_at (\<lambda>x. put x r v') doc q"
    by (rule update_at_append)
  also have "\<dots> = put doc q s'"
    using update_at_local [OF h, of "\<lambda>x. put x r v'"] p by simp
  finally show "apply_patch ops doc = put doc q s'" .
qed

lemma local_ok_child_obj:
  assumes "local_ok (q @ [k]) ops v v'" and "map_of kvs k = Some v"
  shows "local_ok q ops (JObj kvs) (JObj (AList.update k v' kvs))"
proof (rule local_ok_lift [where r = "[k]"])
  show "local_ok (q @ [k]) ops v v'" by (rule assms(1))
  show "lookup (JObj kvs) [k] = Some v" using assms(2) by simp
  show "put (JObj kvs) [k] v' = Some (JObj (AList.update k v' kvs))" using assms(2) by simp
qed

lemma local_ok_child_arr:
  assumes "local_ok (q @ [itoa i]) ops (xs ! i) v'" and "i < length xs"
  shows "local_ok q ops (JArr xs) (JArr (xs[i := v']))"
proof (rule local_ok_lift [where r = "[itoa i]"])
  show "local_ok (q @ [itoa i]) ops (xs ! i) v'" by (rule assms(1))
  show "lookup (JArr xs) [itoa i] = Some (xs ! i)" using assms(2) by simp
  show "put (JArr xs) [itoa i] v' = Some (JArr (xs[i := v']))" using assms(2) by simp
qed

lemma local_ok_single:
  assumes "\<And>doc. lookup doc q = Some s \<Longrightarrow> apply_op op doc = put doc q s'"
  shows "local_ok q [op] s s'"
  using assms by (auto simp: local_ok_def split: option.splits)

lemma local_ok_add_obj:
  "local_ok q [mk_op OperationAdd f (render (q @ [k])) ov x] (JObj kvs) (JObj (obj_put k x kvs))"
proof (rule local_ok_single)
  fix doc assume h: "lookup doc q = Some (JObj kvs)"
  show "apply_op (mk_op OperationAdd f (render (q @ [k])) ov x) doc
        = put doc q (JObj (obj_put k x kvs))"
    using update_at_local [OF h, of "add_child k x"]
    by (simp add: apply_op_def add_at_def add_child_def)
qed

lemma local_ok_append_arr:
  "local_ok q [mk_op OperationAdd f (render (q @ [''-''])) ov x] (JArr xs) (JArr (xs @ [x]))"
proof (rule local_ok_single)
  fix doc assume h: "lookup doc q = Some (JArr xs)"
  show "apply_op (mk_op OperationAdd f (render (q @ [''-''])) ov x) doc
        = put doc q (JArr (xs @ [x]))"
    using update_at_local [OF h, of "add_child ''-'' x"]
    by (simp add: apply_op_def add_at_def add_child_def)
qed

lemma local_ok_remove_obj:
  assumes "map_of kvs k = Some v"
  shows "local_ok q [mk_op OperationRemove f (render (q @ [k])) ov x] (JObj kvs)
           (JObj (AList.delete k kvs))"
proof (rule local_ok_single)
  fix doc assume h: "lookup doc q = Some (JObj kvs)"
  show "apply_op (mk_op OperationRemove f (render (q @ [k])) ov x) doc
        = put doc q (JObj (AList.delete k kvs))"
    using update_at_local [OF h, of "remove_child k"] assms
    by (simp add: apply_op_def remove_at_def remove_child_def)
qed

lemma local_ok_remove_arr:
  assumes "i < length xs"
  shows "local_ok q [mk_op OperationRemove f (render (q @ [itoa i])) ov x] (JArr xs)
           (JArr (take i xs @ drop (Suc i) xs))"
proof (rule local_ok_single)
  fix doc assume h: "lookup doc q = Some (JArr xs)"
  show "apply_op (mk_op OperationRemove f (render (q @ [itoa i])) ov x) doc
        = put doc q (JArr (take i xs @ drop (Suc i) xs))"
    using update_at_local [OF h, of "remove_child (itoa i)"] assms
    by (simp add: apply_op_def remove_at_def remove_child_def)
qed

lemma local_ok_test:
  assumes "lookup s r = Some v" and "deepEqual v x"
  shows "local_ok q [mk_op OperationTest f (render (q @ r)) ov x] s s"
proof (rule local_ok_single)
  fix doc assume h: "lookup doc q = Some s"
  show "apply_op (mk_op OperationTest f (render (q @ r)) ov x) doc = put doc q s"
    using h assms by (simp add: apply_op_def test_at_def lookup_append put_same)
qed

lemma local_ok_replace:
  "local_ok q [mk_op OperationReplace f (render q) ov x] s x"
  by (rule local_ok_single) (simp add: apply_op_def replace_at_def)

lemma local_ok_root_add:
  "local_ok [] [mk_op OperationAdd f [] ov x] s x"
  by (rule local_ok_single) (simp add: apply_op_def add_at_def parse_pointer_def)

lemma deepEqual_refl: "wf_json a \<Longrightarrow> deepEqual a a"
  by (simp add: deepEqual_def areComparable_def deepValueEqual_refl)

lemma removed_rel:
  assumes refl: "\<And>d. R d d"
    and trans: "\<And>a b c. R a b \<Longrightarrow> R b c \<Longrightarrow> R a c"
    and remove: "\<And>d p v. R d (remove d p v)"
  shows "R d (fst (compareArrays_removed d p psize i vs))"
proof (induction vs arbitrary: d p i)
  case Nil
  then show ?case by (simp add: refl)
next
  case (Cons v vs)
  show ?case
    using Cons [of "remove d psize v"] Cons [of d] remove [of d psize v] trans
    by (auto simp: Let_def)
qed

lemma added_rel:
  assumes refl: "\<And>d. R d d"
    and trans: "\<And>a b c. R a b \<Longrightarrow> R b c \<Longrightarrow> R a c"
    and add: "\<And>d p v. R d (add d p v)"
  shows "R d (compareArrays_added d p i vs)"
proof (induction vs arbitrary: d p i)
  case Nil
  then show ?case by (simp add: refl)
next
  case (Cons v vs)
  show ?case
  proof (cases "string_of (appendIndex p i) \<notin> ignores (opts d)")
    case True
    let ?d1 = "add d (copy (appendKey (rewind (appendIndex p i)) ''-'')) v"
    have "R d ?d1" by (rule add)
    moreover have "R ?d1 (compareArrays_added ?d1 (rewind (appendIndex p i)) (Suc i) vs)"
      by (rule Cons)
    ultimately show ?thesis
      using True trans by (auto simp: Let_def)
  next
    case False
    then show ?thesis using Cons by (simp add: Let_def)
  qed
qed

lemma diff_rel:
  fixes R :: "differ \<Rightarrow> differ \<Rightarrow> bool"
  assumes refl: "\<And>d. R d d"
    and trans: "\<And>a b c. R a b \<Longrightarrow> R b c \<Longrightarrow> R a c"
    and add: "\<And>d p v. R d (add d p v)"
    and remove: "\<And>d p v. R d (remove d p v)"
    and replace: "\<And>d p a b. R d (replace d p a b)"
    and root: "\<And>d p a b. R d (d\<lparr>patch := patch_append (patch d) OperationAdd emptyPtr p a b\<rparr>)"
    and rat: "\<And>d0 d p a b. R d0 d \<Longrightarrow> R d0 (rationalizeLastOps d p a b (length (patch d0)))"
  shows "R d (diff d p s t)"
    and "R d (compareObjects d p src tgt)"
    and "R d (compareObjects_keys d p src tgt ks)"
    and "R d (compareArrays d p xs ys)"
    and "R d (fst (compareArrays_elems d p i xs ys))"
proof (induction d p s t and d p src tgt and d p src tgt ks and d p xs ys and d p i xs ys
       rule: diff_compareObjects_compareObjects_keys_compareArrays_compareArrays_elems.induct)
  case (1 d p src tgt)
  have rn: "\<And>d'. R d d' \<Longrightarrow> R d (rationalize_new d' p src tgt (length (patch d)))"
    using rat by (simp add: rationalize_new_def)
  show ?case
  proof (cases "(src = JNull \<and> tgt = JNull) \<or> copy p \<in> ignores (opts d)
                \<or> \<not> areComparable src tgt \<or> deepValueEqual src tgt")
    case True
    then show ?thesis
      by (auto simp: diff.simps refl replace root)
  next
    case False
    then show ?thesis
      using "1.IH" rn
      by (auto simp: diff.simps Let_def refl replace split: json.splits)
  qed
next
  case (2 d p src tgt)
  then show ?case by (simp add: compareObjects.simps)
next
  case (3 d p src tgt)
  then show ?case by (simp add: refl)
next
  case (4 d p src tgt k ks)
  let ?p1 = "appendKey (snapshot p) k"
  let ?d1 = "case map_of src k of
            None \<Rightarrow>
              (case map_of tgt k of None \<Rightarrow> d
              | Some v2 \<Rightarrow>
                  if string_of ?p1 \<notin> ignores (opts d) then add d (copy ?p1) v2
                  else d)
            | Some v1 \<Rightarrow>
                (case map_of tgt k of
                None \<Rightarrow>
                  if string_of ?p1 \<notin> ignores (opts d)
                  then remove d (copy ?p1) v1 else d
                | Some xa \<Rightarrow> diff d ?p1 v1 xa)"
  have a: "R d ?d1"
    using "4.IH"(1) by (auto simp: refl add remove split: option.splits)
  have b: "R ?d1 (compareObjects_keys ?d1 (rewind ?p1) src tgt ks)"
    using "4.IH"(2) by simp
  show ?case
    using trans [OF a b] by (simp add: Let_def)
next
  case (5 d p src tgt)
  let ?p0 = "snapshot p"
  let ?sz = "min (length src) (length tgt)"
  let ?r1 = "if ?sz < length src
            then compareArrays_removed d ?p0 (copy (appendIndex ?p0 ?sz)) ?sz (drop ?sz src)
            else (d, ?p0)"
  let ?d1 = "fst ?r1" and ?p1 = "snd ?r1"
  let ?r2 = "if equivalent (opts ?d1) \<and> unorderedDeepEqualSlice ?d1 src tgt
             then (?d1, ?p1)
             else compareArrays_elems ?d1 ?p1 0 (take ?sz src) (take ?sz tgt)"
  have a: "R d ?d1"
    using removed_rel [of R, OF refl trans remove] by (simp add: refl)
  have b: "R ?d1 (fst ?r2)"
    using "5.IH" [of ?p0 ?sz ?r1 ?d1 ?p1] by (simp add: refl)
  have c: "R (fst ?r2) (compareArrays_added (fst ?r2) (snd ?r2) ?sz (drop ?sz tgt))"
    by (rule added_rel [of R, OF refl trans add])
  have "compareArrays d p src tgt = compareArrays_added (fst ?r2) (snd ?r2) ?sz (drop ?sz tgt)"
    by (simp add: compareArrays.simps Let_def case_prod_beta)
  then show ?case
    using trans [OF a trans [OF b c]] by simp
next
  case (6 d p i x xs y ys)
  have a: "R d (diff d (appendIndex p i) x y)"
    using "6.IH"(1) by simp
  have b: "R (diff d (appendIndex p i) x y)
             (fst (compareArrays_elems (diff d (appendIndex p i) x y) (rewind (appendIndex p i))
                     (Suc i) xs ys))"
    using "6.IH"(2) by simp
  show ?case
    using trans [OF a b] by (simp add: Let_def)
qed (simp_all add: refl)


definition env :: "differ \<Rightarrow> differ" where
  "env d = d\<lparr>patch := []\<rparr>"

lemma env_fields:
  "env a = env b \<Longrightarrow>
   opts a = opts b \<and> hasher a = hasher b \<and> hashmap a = hashmap b \<and>
   opLength a = opLength b \<and> patchLength a = patchLength b \<and> ptr a = ptr b"
  by (cases a, cases b) (simp add: env_def)

lemma env_patch_update [simp]: "env (d\<lparr>patch := x\<rparr>) = env d"
  by (simp add: env_def)

lemma env_step [simp]:
  "env (add d p v) = env d"
  "env (remove d p v) = env d"
  "env (replace d p a b) = env d"
  "env (rationalizeLastOps d q a b n) = env d"
  by (simp_all add: add_def remove_def replace_def rationalizeLastOps_def Let_def
      split: option.splits)

lemma env_diff:
  "env (diff d p s t) = env d"
  "env (compareObjects d p src tgt) = env d"
  "env (compareObjects_keys d p src tgt ks) = env d"
  "env (compareArrays d p xs ys) = env d"
  "env (fst (compareArrays_elems d p i xs ys)) = env d"
  by (rule diff_rel [where R = "\<lambda>a b. env b = env a"]; simp)+

lemma opts_diff [simp]:
  "opts (diff d p s t) = opts d"
  "opts (compareObjects d p src tgt) = opts d"
  "opts (compareObjects_keys d p src tgt ks) = opts d"
  "opts (compareArrays d p xs ys) = opts d"
  "opts (fst (compareArrays_elems d p i xs ys)) = opts d"
  by (simp_all add: env_fields [OF env_diff(1)] env_fields [OF env_diff(2)]
      env_fields [OF env_diff(3)] env_fields [OF env_diff(4)] env_fields [OF env_diff(5)])

lemma hashmap_diff [simp]:
  "hashmap (diff d p s t) = hashmap d"
  "hashmap (compareObjects d p src tgt) = hashmap d"
  "hashmap (compareObjects_keys d p src tgt ks) = hashmap d"
  "hashmap (compareArrays d p xs ys) = hashmap d"
  "hashmap (fst (compareArrays_elems d p i xs ys)) = hashmap d"
  by (simp_all add: env_fields [OF env_diff(1)] env_fields [OF env_diff(2)]
      env_fields [OF env_diff(3)] env_fields [OF env_diff(4)] env_fields [OF env_diff(5)])

lemma hasher_diff [simp]:
  "hasher (diff d p s t) = hasher d"
  "hasher (compareObjects d p src tgt) = hasher d"
  "hasher (compareObjects_keys d p src tgt ks) = hasher d"
  "hasher (compareArrays d p xs ys) = hasher d"
  "hasher (fst (compareArrays_elems d p i xs ys)) = hasher d"
  by (simp_all add: env_fields [OF env_diff(1)] env_fields [OF env_diff(2)]
      env_fields [OF env_diff(3)] env_fields [OF env_diff(4)] env_fields [OF env_diff(5)])

text \<open>Without factorization the patch only grows at its end.\<close>

definition grows :: "differ \<Rightarrow> differ \<Rightarrow> bool" where
  "grows a b \<longleftrightarrow> env b = env a \<and> (\<not> factorize (opts a) \<longrightarrow> prefix (patch a) (patch b))"

lemma grows_refl: "grows d d"
  by (simp add: grows_def)

lemma grows_trans: "grows a b \<Longrightarrow> grows b c \<Longrightarrow> grows a c"
  unfolding grows_def using env_fields [of b a] by (auto intro: prefix_order.trans)

lemma grows_diff:
  "grows d (diff d p s t)"
  "grows d (compareObjects d p src tgt)"
  "grows d (compareObjects_keys d p src tgt ks)"
  "grows d (compareArrays d p xs ys)"
  "grows d (fst (compareArrays_elems d p i xs ys))"
proof -
  have add: "\<And>d p v. grows d (add d p v)"
    by (simp add: grows_def) (simp add: add_def patch_append_def)
  have remove: "\<And>d p v. grows d (remove d p v)"
    by (simp add: grows_def) (simp add: remove_def patch_append_def Let_def)
  have replace: "\<And>d p a b. grows d (replace d p a b)"
    by (simp add: grows_def) (simp add: replace_def patch_append_def Let_def)
  have root: "\<And>d p a b. grows d (d\<lparr>patch := patch_append (patch d) OperationAdd emptyPtr p a b\<rparr>)"
    by (simp add: grows_def patch_append_def)
  have rat: "\<And>d0 d p a b. grows d0 d \<Longrightarrow> grows d0 (rationalizeLastOps d p a b (length (patch d0)))"
  proof -
    fix d0 d :: differ and p a b
    assume g: "grows d0 d"
    show "grows d0 (rationalizeLastOps d p a b (length (patch d0)))"
    proof (cases "factorize (opts d0)")
      case True
      then show ?thesis using g by (simp add: grows_def)
    next
      case False
      then obtain ops where "patch d = patch d0 @ ops"
        using g by (auto simp: grows_def prefix_def)
      then show ?thesis
        using g by (auto simp: grows_def rationalizeLastOps_def Let_def)
    qed
  qed
  note r = diff_rel [where R = grows, OF grows_refl grows_trans add remove replace root rat]
  show "grows d (diff d p s t)" by (rule r(1))
  show "grows d (compareObjects d p src tgt)" by (rule r(2))
  show "grows d (compareObjects_keys d p src tgt ks)" by (rule r(3))
  show "grows d (compareArrays d p xs ys)" by (rule r(4))
  show "grows d (fst (compareArrays_elems d p i xs ys))" by (rule r(5))
qed

section \<open>Objects as sorted entry lists\<close>

lemma alist_rebuild:
  assumes "distinct (map fst a)"
  shows "a = map (\<lambda>k. (k, the (map_of a k))) (map fst a)"
proof -
  have "map (\<lambda>x. (fst x, the (map_of a (fst x)))) a = a"
    using assms by (intro map_idI) (simp add: map_of_distinct_self)
  then show ?thesis by (simp add: comp_def)
qed

lemma sorted_alist_eq:
  assumes "sorted (map fst a)" "distinct (map fst a)"
    and "sorted (map fst b)" "distinct (map fst b)"
    and m: "map_of a = map_of b"
  shows "a = b"
proof -
  have "set (map fst a) = set (map fst b)"
    using m by (metis dom_map_of_conv_image_fst set_map)
  then have k: "map fst a = map fst b"
    using assms(1-4) by (simp add: sorted_distinct_set_unique)
  have "a = map (\<lambda>k. (k, the (map_of a k))) (map fst a)"
    using assms(2) by (rule alist_rebuild)
  also have "\<dots> = map (\<lambda>k. (k, the (map_of b k))) (map fst b)"
    using k m by simp
  also have "\<dots> = b"
    using assms(4) alist_rebuild [of b] by simp
  finally show ?thesis .
qed

lemma map_of_obj_put: "map_of (obj_put k v m) = (map_of m)(k \<mapsto> v)"
  by (induction m) (auto simp: fun_eq_iff)

lemma set_obj_put: "set (map fst (obj_put k v m)) = insert k (set (map fst m))"
proof -
  have "dom (map_of (obj_put k v m)) = insert k (dom (map_of m))"
    by (simp add: map_of_obj_put)
  then show ?thesis
    by (simp add: dom_map_of_conv_image_fst)
qed

lemma sorted_obj_put:
  "sorted (map fst m) \<Longrightarrow> distinct (map fst m) \<Longrightarrow>
   sorted (map fst (obj_put k v m)) \<and> distinct (map fst (obj_put k v m))"
proof (induction m)
  case Nil
  then show ?case by simp
next
  case (Cons kv m)
  obtain k' v' where kv: "kv = (k', v')" by (cases kv)
  have s: "set (map fst (obj_put k v m)) = insert k (set (map fst m))"
    by (rule set_obj_put)
  have ih: "sorted (map fst (obj_put k v m))" "distinct (map fst (obj_put k v m))"
    using Cons by simp_all
  have low: "\<forall>y \<in> set (map fst m). k' \<le> y" and notin: "k' \<notin> set (map fst m)"
    and sm: "sorted (map fst m)" and dm: "distinct (map fst m)"
    using Cons.prems kv by simp_all
  show ?case
  proof (cases "k < k'")
    case True
    then have "\<forall>y \<in> set (map fst m). k \<le> y" "k \<notin> set (map fst m)"
      using low by (auto simp: less_le)
    then show ?thesis
      using True kv low notin sm dm by (simp add: less_le)
  next
    case False
    show ?thesis
    proof (cases "k = k'")
      case True
      then show ?thesis using kv low notin sm dm by simp
    next
      case ne: False
      then have "k' \<le> k" using False by simp
      then show ?thesis
        using False ne kv ih s low notin by (simp del: set_map)
    qed
  qed
qed

lemma sorted_delete:
  "sorted (map fst m) \<Longrightarrow> distinct (map fst m) \<Longrightarrow>
   sorted (map fst (AList.delete k m)) \<and> distinct (map fst (AList.delete k m))"
  by (induction m) (auto simp: delete_keys)

lemma sorted_update:
  "map_of m k = Some v \<Longrightarrow> map fst (AList.update k v' m) = map fst m"
  by (induction m) (auto split: if_splits)

lemma wf_map_of: "wf_json (JObj m) \<Longrightarrow> map_of m k = Some v \<Longrightarrow> wf_json v"
  by (auto dest!: map_of_SomeD)

section \<open>Deep equality of well-formed values\<close>

lemma deepValueEqual_eq:
  "wf_json a \<Longrightarrow> wf_json b \<Longrightarrow> deepValueEqual a b \<Longrightarrow> a = b"
proof (induction a arbitrary: b)
  case (JArr xs)
  then obtain ys where b: "b = JArr ys" by (cases b) auto
  have "list_all2 deepValueEqual xs ys"
    using JArr.prems b by simp
  then have "list_all2 (=) xs ys"
    using JArr.IH JArr.prems b
    by (auto simp: list_all2_conv_all_nth)
  then show ?case using b by (simp add: list_all2_eq)
next
  case (JObj m1)
  then obtain m2 where b: "b = JObj m2" by (cases b) auto
  have len: "length m1 = length m2" using JObj.prems b by simp
  have sub: "\<And>k v. (k, v) \<in> set m1 \<Longrightarrow> map_of m2 k = Some v"
  proof -
    fix k v assume h: "(k, v) \<in> set m1"
    then obtain v2 where v2: "map_of m2 k = Some v2" "deepValueEqual v v2"
      using JObj.prems(3) b by (fastforce split: option.splits)
    have "wf_json v" using h JObj.prems(1) by auto
    moreover have "wf_json v2" using v2(1) JObj.prems(2) b by (auto dest!: map_of_SomeD)
    moreover have "v \<in> Basic_BNFs.snds (k, v)" by simp
    ultimately have "v = v2"
      using JObj.IH [of "(k, v)" v v2] h v2(2) by simp
    then show "map_of m2 k = Some v" using v2(1) by simp
  qed
  have d1: "distinct (map fst m1)" and d2: "distinct (map fst m2)"
    using JObj.prems b by auto
  have "set (map fst m1) \<subseteq> set (map fst m2)"
    using sub by (auto dest: map_of_SomeD)
  moreover have "card (set (map fst m1)) = card (set (map fst m2))"
    using d1 d2 len by (metis distinct_card length_map)
  ultimately have keys: "set (map fst m1) = set (map fst m2)"
    by (simp add: card_subset_eq)
  have "map_of m1 = map_of m2"
  proof
    fix k
    show "map_of m1 k = map_of m2 k"
    proof (cases "map_of m1 k")
      case None
      then have "k \<notin> set (map fst m1)" by (simp add: map_of_eq_None_iff)
      then have "k \<notin> set (map fst m2)" using keys by simp
      then have "map_of m2 k = None" by (simp add: map_of_eq_None_iff)
      then show ?thesis using None by simp
    next
      case (Some v)
      then show ?thesis using sub [of k v] by (auto dest: map_of_SomeD)
    qed
  qed
  then have "m1 = m2"
    using JObj.prems b by (intro sorted_alist_eq) auto
  then show ?case using b by simp
qed (case_tac b; simp)+

section \<open>The sorted keys\<close>

lemma mset_insertKey: "mset (insertKey key pre) = add_mset key (mset pre)"
proof -
  let ?n = "length pre - length (takeWhile (\<lambda>x. key < x) (rev pre))"
  have "mset (take ?n pre) + mset (drop ?n pre) = mset pre"
    by (metis append_take_drop_id mset_append)
  then show ?thesis
    by (simp add: insertKey_def Let_def)
qed

lemma mset_foldl_insertKey:
  "mset (foldl (\<lambda>pre key. insertKey key pre) acc v) = mset acc + mset v"
  by (induction v arbitrary: acc) (simp_all add: mset_insertKey)

lemma mset_sortStrings: "mset (sortStrings v) = mset v"
proof -
  have "mset (take 1 v) + mset (drop 1 v) = mset v"
    by (metis append_take_drop_id mset_append)
  then show ?thesis
    by (simp add: sortStrings_def insertionSort_def mset_foldl_insertKey)
qed

lemma set_sortStrings [simp]: "set (sortStrings v) = set v"
  using mset_sortStrings by (metis set_mset_mset)

lemma distinct_sortStrings [simp]: "distinct (sortStrings v) = distinct v"
  using mset_sortStrings by (metis mset_eq_imp_distinct_iff)

section \<open>Pointer steps\<close>

lemma buf_appendKey: "buf p = render q \<Longrightarrow> buf (appendKey (snapshot p) k) = render (q @ [k])"
  by (simp add: appendKey_def snapshot_def render_append)

lemma buf_appendIndex: "buf p = render q \<Longrightarrow> buf (appendIndex p i) = render (q @ [itoa i])"
  by (simp add: appendIndex_def render_append)

lemma rewind_appendKey [simp]: "rewind (appendKey (snapshot p) k) = snapshot p"
  by (simp add: rewind_def appendKey_def snapshot_def)

lemma rewind_appendIndex: "sep p = length (buf p) \<Longrightarrow> rewind (appendIndex p i) = p"
  by (simp add: rewind_def appendIndex_def)

lemma snapshot_simps [simp]:
  "buf (snapshot p) = buf p" "sep (snapshot p) = length (buf p)"
  by (simp_all add: snapshot_def)

section \<open>The operations a step appends\<close>

definition new_ops :: "differ \<Rightarrow> differ \<Rightarrow> operation list" where
  "new_ops d d' = drop (length (patch d)) (patch d')"

definition test_ops :: "bool \<Rightarrow> string \<Rightarrow> json \<Rightarrow> operation list" where
  "test_ops iv path v = (if iv then [mk_op OperationTest emptyPtr path JNull v] else [])"

definition remove_ops :: "bool \<Rightarrow> string \<Rightarrow> json \<Rightarrow> operation list" where
  "remove_ops iv path v = test_ops iv path v @ [mk_op OperationRemove emptyPtr path v JNull]"

definition plain :: "differ \<Rightarrow> bool" where
  "plain d \<longleftrightarrow> \<not> factorize (opts d) \<and> ignores (opts d) = {}"

lemma new_ops_self [simp]: "new_ops d d = []"
  by (simp add: new_ops_def)

lemma grows_patch:
  "grows d d' \<Longrightarrow> \<not> factorize (opts d) \<Longrightarrow> patch d' = patch d @ new_ops d d'"
  by (auto simp: grows_def new_ops_def prefix_def)

lemma new_ops_trans:
  assumes "grows a b" "grows b c" "\<not> factorize (opts a)"
  shows "new_ops a c = new_ops a b @ new_ops b c"
proof -
  have ob: "opts b = opts a"
    using assms(1) env_fields [of b a] by (simp add: grows_def)
  have 1: "patch b = patch a @ new_ops a b"
    using assms(1,3) by (rule grows_patch)
  have 2: "patch c = patch b @ new_ops b c"
    using assms(2,3) ob by (simp add: grows_patch)
  show ?thesis
    by (subst new_ops_def) (simp add: 1 2)
qed

lemma plain_env: "env d' = env d \<Longrightarrow> plain d' = plain d"
  using env_fields [of d' d] by (simp add: plain_def)

lemma remove_eq: "remove d p v = d\<lparr>patch := patch d @ remove_ops (invertible (opts d)) p v\<rparr>"
  by (simp add: remove_def remove_ops_def test_ops_def patch_append_mk Let_def)

lemma replace_eq:
  "replace d p a b = d\<lparr>patch := patch d @ test_ops (invertible (opts d)) p a
                                   @ [mk_op OperationReplace emptyPtr p a b]\<rparr>"
  by (simp add: replace_def test_ops_def patch_append_mk Let_def)

lemma add_plain_eq:
  "\<not> factorize (opts d) \<Longrightarrow>
   add d p v = d\<lparr>patch := patch d @ [mk_op OperationAdd emptyPtr p JNull v]\<rparr>"
  by (simp add: add_def patch_append_mk)

lemma removed_eq:
  assumes "ignores (opts d) = {}" "sep p = length (buf p)"
  shows "compareArrays_removed d p psize i vs =
         (d\<lparr>patch := patch d @ concat (map (remove_ops (invertible (opts d)) psize) vs)\<rparr>, p)"
  using assms
proof (induction vs arbitrary: d i)
  case Nil
  then show ?case by simp
next
  case (Cons v vs)
  let ?d1 = "d\<lparr>patch := patch d @ remove_ops (invertible (opts d)) psize v\<rparr>"
  have "compareArrays_removed ?d1 p psize (Suc i) vs =
        (?d1\<lparr>patch := patch ?d1 @ concat (map (remove_ops (invertible (opts ?d1)) psize) vs)\<rparr>, p)"
    using Cons.prems by (intro Cons.IH) simp_all
  then show ?case
    using Cons.prems by (simp add: Let_def remove_eq rewind_appendIndex)
qed

lemma added_eq:
  assumes "plain d" "sep p = length (buf p)"
  shows "compareArrays_added d p i vs =
         d\<lparr>patch := patch d @ map (mk_op OperationAdd emptyPtr (buf p @ ''/-'') JNull) vs\<rparr>"
  using assms
proof (induction vs arbitrary: d i)
  case Nil
  then show ?case by simp
next
  case (Cons v vs)
  let ?d1 = "d\<lparr>patch := patch d @ [mk_op OperationAdd emptyPtr (buf p @ ''/-'') JNull v]\<rparr>"
  have "compareArrays_added ?d1 p (Suc i) vs =
        ?d1\<lparr>patch := patch ?d1 @ map (mk_op OperationAdd emptyPtr (buf p @ ''/-'') JNull) vs\<rparr>"
    using Cons.prems by (intro Cons.IH) (simp_all add: plain_def)
  then show ?case
    using Cons.prems
    by (simp add: Let_def add_plain_eq plain_def rewind_appendIndex copy_def appendKey_def)
qed

section \<open>What the appended operations do\<close>

lemma local_ok_test_ops:
  assumes "lookup s r = Some v" "wf_json v"
  shows "local_ok q (test_ops iv (render (q @ r)) v) s s"
  using assms
  by (simp add: test_ops_def local_ok_nil local_ok_test deepEqual_refl)

lemma local_ok_replace_ops:
  assumes "wf_json s"
  shows "local_ok q (test_ops iv (render q) s @ [mk_op OperationReplace f (render q) ov t]) s t"
proof (rule local_ok_seq)
  show "local_ok q (test_ops iv (render q) s) s s"
    using local_ok_test_ops [of s "[]" s q iv] assms by simp
  show "local_ok q [mk_op OperationReplace f (render q) ov t] s t"
    by (rule local_ok_replace)
qed

lemma local_ok_remove_ops_obj:
  assumes "map_of kvs k = Some v" "wf_json v"
  shows "local_ok q (remove_ops iv (render (q @ [k])) v) (JObj kvs) (JObj (AList.delete k kvs))"
  unfolding remove_ops_def
proof (rule local_ok_seq)
  show "local_ok q (test_ops iv (render (q @ [k])) v) (JObj kvs) (JObj kvs)"
    using assms by (intro local_ok_test_ops) simp_all
  show "local_ok q [mk_op OperationRemove emptyPtr (render (q @ [k])) v JNull] (JObj kvs)
          (JObj (AList.delete k kvs))"
    using assms(1) by (rule local_ok_remove_obj)
qed

lemma local_ok_remove_ops_arr:
  assumes "i < length xs" "wf_json (xs ! i)"
  shows "local_ok q (remove_ops iv (render (q @ [itoa i])) (xs ! i)) (JArr xs)
           (JArr (take i xs @ drop (Suc i) xs))"
  unfolding remove_ops_def
proof (rule local_ok_seq)
  show "local_ok q (test_ops iv (render (q @ [itoa i])) (xs ! i)) (JArr xs) (JArr xs)"
    using assms by (intro local_ok_test_ops) simp_all
  show "local_ok q [mk_op OperationRemove emptyPtr (render (q @ [itoa i])) (xs ! i) JNull]
          (JArr xs) (JArr (take i xs @ drop (Suc i) xs))"
    using assms(1) by (rule local_ok_remove_arr)
qed

lemma local_ok_removed:
  assumes "\<forall>v \<in> set vs. wf_json v"
  shows "local_ok q (concat (map (remove_ops iv (render (q @ [itoa (length xs)]))) vs))
           (JArr (xs @ vs)) (JArr xs)"
  using assms
proof (induction vs)
  case Nil
  then show ?case by (simp add: local_ok_nil)
next
  case (Cons v vs)
  have "local_ok q (remove_ops iv (render (q @ [itoa (length xs)])) ((xs @ v # vs) ! length xs))
          (JArr (xs @ v # vs))
          (JArr (take (length xs) (xs @ v # vs) @ drop (Suc (length xs)) (xs @ v # vs)))"
    using Cons.prems by (intro local_ok_remove_ops_arr) simp_all
  then have "local_ok q (remove_ops iv (render (q @ [itoa (length xs)])) v)
          (JArr (xs @ v # vs)) (JArr (xs @ vs))"
    by simp
  moreover have "local_ok q (concat (map (remove_ops iv (render (q @ [itoa (length xs)]))) vs))
           (JArr (xs @ vs)) (JArr xs)"
    using Cons by simp
  ultimately show ?case
    using local_ok_seq by fastforce
qed

lemma local_ok_added:
  "local_ok q (map (mk_op OperationAdd f (render (q @ [''-''])) ov) vs) (JArr xs) (JArr (xs @ vs))"
proof (induction vs arbitrary: xs)
  case Nil
  then show ?case by (simp add: local_ok_nil)
next
  case (Cons v vs)
  have "local_ok q [mk_op OperationAdd f (render (q @ [''-''])) ov v] (JArr xs) (JArr (xs @ [v]))"
    by (rule local_ok_append_arr)
  moreover have "local_ok q (map (mk_op OperationAdd f (render (q @ [''-''])) ov) vs)
                   (JArr (xs @ [v])) (JArr ((xs @ [v]) @ vs))"
    by (rule Cons.IH)
  ultimately show ?case
    using local_ok_seq by fastforce
qed

lemma new_ops_app [simp]: "new_ops d (d\<lparr>patch := patch d @ x\<rparr>) = x"
  by (simp add: new_ops_def)

lemma grows_opts: "grows d d' \<Longrightarrow> opts d' = opts d"
  using env_fields [of d' d] by (simp add: grows_def)

lemma rationalizeLastOps_cases:
  "rationalizeLastOps d' p s t n = d' \<or>
   rationalizeLastOps d' p s t n =
     d'\<lparr>patch := take n (patch d') @ test_ops (invertible (opts d')) (copy p) s
                    @ [mk_op OperationReplace emptyPtr (copy p) JNull t]\<rparr>"
  unfolding rationalizeLastOps_def Let_def test_ops_def patch_append_mk mk_op_def
  by (cases "invertible (opts d')") simp_all

lemma rationalize_cases:
  assumes g: "grows d d'" and nf: "\<not> factorize (opts d)"
  shows "new_ops d (rationalize_new d' p s t (length (patch d))) = new_ops d d' \<or>
         new_ops d (rationalize_new d' p s t (length (patch d))) =
           test_ops (invertible (opts d)) (copy p) s
           @ [mk_op OperationReplace emptyPtr (copy p) JNull t]"
proof -
  have pd: "patch d' = patch d @ new_ops d d'"
    using g nf by (rule grows_patch)
  have o: "opts d' = opts d" using g by (rule grows_opts)
  let ?r = "rationalizeLastOps d' p s t (length (patch d))"
  have "new_ops d ?r = new_ops d d' \<or>
        new_ops d ?r = test_ops (invertible (opts d)) (copy p) s
           @ [mk_op OperationReplace emptyPtr (copy p) JNull t]"
    using rationalizeLastOps_cases [of d' p s t "length (patch d)"]
  proof
    assume "?r = d'"
    then show ?thesis by simp
  next
    assume "?r = d'\<lparr>patch := take (length (patch d)) (patch d')
                      @ test_ops (invertible (opts d')) (copy p) s
                      @ [mk_op OperationReplace emptyPtr (copy p) JNull t]\<rparr>"
    then have "patch ?r = patch d @ test_ops (invertible (opts d)) (copy p) s
                      @ [mk_op OperationReplace emptyPtr (copy p) JNull t]"
      by (simp add: pd o)
    then show ?thesis by (simp add: new_ops_def)
  qed
  then show ?thesis
    by (auto simp: rationalize_new_def)
qed

lemma local_rationalize:
  assumes g: "grows d d'" and pl: "plain d" and b: "buf p = render q" and w: "wf_json s"
    and ih: "\<exists>t'. local_ok q (new_ops d d') s t' \<and> (\<not> equivalent (opts d) \<longrightarrow> t' = t)"
  shows "\<exists>t'. local_ok q (new_ops d (rationalize_new d' p s t (length (patch d)))) s t' \<and>
              (\<not> equivalent (opts d) \<longrightarrow> t' = t)"
proof -
  have nf: "\<not> factorize (opts d)" using pl by (simp add: plain_def)
  from rationalize_cases [OF g nf, of p s t]
  show ?thesis
  proof
    assume "new_ops d (rationalize_new d' p s t (length (patch d))) = new_ops d d'"
    then show ?thesis using ih by simp
  next
    assume e: "new_ops d (rationalize_new d' p s t (length (patch d))) =
           test_ops (invertible (opts d)) (copy p) s
           @ [mk_op OperationReplace emptyPtr (copy p) JNull t]"
    have "local_ok q (test_ops (invertible (opts d)) (render q) s
           @ [mk_op OperationReplace emptyPtr (render q) JNull t]) s t"
      using w by (rule local_ok_replace_ops)
    then show ?thesis
      using e b by (auto simp: copy_def)
  qed
qed

lemma diff_scalar_local:
  assumes pl: "plain d" and b: "buf p = render q" and w: "wf_json s"
  shows "local_ok q (new_ops d (replace d (copy p) s t)) s t"
  using local_ok_replace_ops [OF w, of q "invertible (opts d)" emptyPtr s t] b
  by (simp add: replace_eq copy_def)

lemma diff_local:
  "plain d \<Longrightarrow> buf p = render q \<Longrightarrow> wf_json s \<Longrightarrow> wf_json t \<Longrightarrow>
     \<exists>t'. local_ok q (new_ops d (diff d p s t)) s t' \<and> (\<not> equivalent (opts d) \<longrightarrow> t' = t)"
  and "plain d \<Longrightarrow> buf p = render q \<Longrightarrow> wf_json (JObj src) \<Longrightarrow> wf_json (JObj tgt) \<Longrightarrow>
     \<exists>t'. local_ok q (new_ops d (compareObjects d p src tgt)) (JObj src) t' \<and>
          (\<not> equivalent (opts d) \<longrightarrow> t' = JObj tgt)"
  and "plain d \<Longrightarrow> buf p = render q \<Longrightarrow> wf_json (JObj src) \<Longrightarrow> wf_json (JObj tgt) \<Longrightarrow>
     sorted (map fst cur) \<Longrightarrow> distinct (map fst cur) \<Longrightarrow> distinct ks \<Longrightarrow>
     (\<forall>k \<in> set ks. map_of cur k = map_of src k) \<Longrightarrow>
     \<exists>cur'. local_ok q (new_ops d (compareObjects_keys d p src tgt ks)) (JObj cur) (JObj cur') \<and>
           sorted (map fst cur') \<and> distinct (map fst cur') \<and>
           (\<forall>k. k \<notin> set ks \<longrightarrow> map_of cur' k = map_of cur k) \<and>
           (\<not> equivalent (opts d) \<longrightarrow> (\<forall>k \<in> set ks. map_of cur' k = map_of tgt k))"
  and "plain d \<Longrightarrow> buf p = render q \<Longrightarrow> wf_json (JArr xs) \<Longrightarrow> wf_json (JArr ys) \<Longrightarrow>
     \<exists>t'. local_ok q (new_ops d (compareArrays d p xs ys)) (JArr xs) t' \<and>
          (\<not> equivalent (opts d) \<longrightarrow> t' = JArr ys)"
  and "plain d \<Longrightarrow> buf p = render q \<Longrightarrow> sep p = length (buf p) \<Longrightarrow>
     wf_json (JArr xs) \<Longrightarrow> wf_json (JArr ys) \<Longrightarrow> length xs = length ys \<Longrightarrow> length pre = i \<Longrightarrow>
     \<exists>zs. local_ok q (new_ops d (fst (compareArrays_elems d p i xs ys)))
            (JArr (pre @ xs @ post)) (JArr (pre @ zs @ post)) \<and>
          length zs = length xs \<and> snd (compareArrays_elems d p i xs ys) = p \<and>
          (\<not> equivalent (opts d) \<longrightarrow> zs = ys)"
proof (induction d p s t and d p src tgt and d p src tgt ks and d p xs ys and d p i xs ys
       arbitrary: q and q and q cur and q and q pre post
       rule: diff_compareObjects_compareObjects_keys_compareArrays_compareArrays_elems.induct)
  case (1 d p src tgt)
  note pl = "1.prems"(1) and b = "1.prems"(2) and ws = "1.prems"(3) and wt = "1.prems"(4)
  have ign: "copy p \<notin> ignores (opts d)" using pl by (simp add: plain_def)
  show ?case
  proof (cases "src = JNull \<and> tgt = JNull")
    case True
    then show ?thesis
      by (auto simp: diff.simps intro!: exI [of _ JNull] local_ok_nil)
  next
    case nn: False
    show ?thesis
    proof (cases "areComparable src tgt")
      case False
      show ?thesis
      proof (cases "isRoot p")
        case True
        then have "q = []" using b by (simp add: isRoot_def)
        then show ?thesis
          using nn ign False True b local_ok_root_add [of emptyPtr src tgt src]
          by (auto simp: diff.simps patch_append_mk copy_def)
      next
        case nr: False
        then show ?thesis
          using nn ign False diff_scalar_local [OF pl b ws, of tgt]
          by (auto simp: diff.simps)
      qed
    next
      case cmp: True
      show ?thesis
      proof (cases "deepValueEqual src tgt")
        case True
        then have "src = tgt" using ws wt by (rule deepValueEqual_eq [rotated 2])
        then show ?thesis
          using nn ign cmp True
          by (auto simp: diff.simps intro!: exI [of _ tgt] local_ok_nil)
      next
        case ne: False
        show ?thesis
        proof (cases src)
          case (JArr xs)
          then obtain ys where t: "tgt = JArr ys"
            using cmp by (cases tgt) (auto simp: areComparable_def)
          have ih: "\<exists>t'. local_ok q (new_ops d (compareArrays d p xs ys)) src t' \<and>
                     (\<not> equivalent (opts d) \<longrightarrow> t' = tgt)"
            using "1.IH"(1) [OF nn ign _ ne refl JArr t pl b] ws wt cmp JArr t by simp
          have "\<exists>t'. local_ok q (new_ops d (rationalize_new (compareArrays d p xs ys) p src tgt
                        (length (patch d)))) src t' \<and> (\<not> equivalent (opts d) \<longrightarrow> t' = tgt)"
            using grows_diff(4) pl b ws ih by (rule local_rationalize)
          moreover have "diff d p src tgt =
              rationalize_new (compareArrays d p xs ys) p src tgt (length (patch d))"
            by (subst diff.simps)
               (use nn ign cmp ne JArr t in \<open>simp add: Let_def del: deepValueEqual.simps\<close>)
          ultimately show ?thesis by simp
        next
          case (JObj m)
          then obtain m' where t: "tgt = JObj m'"
            using cmp by (cases tgt) (auto simp: areComparable_def)
          have ih: "\<exists>t'. local_ok q (new_ops d (compareObjects d p m m')) src t' \<and>
                     (\<not> equivalent (opts d) \<longrightarrow> t' = tgt)"
            using "1.IH"(2) [OF nn ign _ ne refl JObj t pl b] ws wt cmp JObj t by simp
          have "\<exists>t'. local_ok q (new_ops d (rationalize_new (compareObjects d p m m') p src tgt
                        (length (patch d)))) src t' \<and> (\<not> equivalent (opts d) \<longrightarrow> t' = tgt)"
            using grows_diff(2) pl b ws ih by (rule local_rationalize)
          moreover have "diff d p src tgt =
              rationalize_new (compareObjects d p m m') p src tgt (length (patch d))"
            by (subst diff.simps)
               (use nn ign cmp ne JObj t in \<open>simp add: Let_def del: deepValueEqual.simps\<close>)
          ultimately show ?thesis by simp
        qed (use nn ign cmp ne diff_scalar_local [OF pl b ws, of tgt] in
               \<open>auto simp: diff.simps Let_def simp del: deepValueEqual.simps\<close>)
      qed
    qed
  qed
next
  case (2 d p src tgt)
  let ?ks = "sortStrings (remdups (map fst src @ map fst tgt))"
  have "\<exists>cur'. local_ok q (new_ops d (compareObjects_keys d p src tgt ?ks)) (JObj src) (JObj cur') \<and>
           sorted (map fst cur') \<and> distinct (map fst cur') \<and>
           (\<forall>k. k \<notin> set ?ks \<longrightarrow> map_of cur' k = map_of src k) \<and>
           (\<not> equivalent (opts d) \<longrightarrow> (\<forall>k \<in> set ?ks. map_of cur' k = map_of tgt k))"
    using "2.prems" by (intro "2.IH") simp_all
  then obtain cur' where c: "local_ok q (new_ops d (compareObjects_keys d p src tgt ?ks)) (JObj src) (JObj cur')"
      "sorted (map fst cur')" "distinct (map fst cur')"
      "\<forall>k. k \<notin> set ?ks \<longrightarrow> map_of cur' k = map_of src k"
      "\<not> equivalent (opts d) \<longrightarrow> (\<forall>k \<in> set ?ks. map_of cur' k = map_of tgt k)"
    by blast
  have "cur' = tgt" if ne: "\<not> equivalent (opts d)"
  proof (rule sorted_alist_eq)
    show "map_of cur' = map_of tgt"
    proof
      fix k
      show "map_of cur' k = map_of tgt k"
      proof (cases "k \<in> set ?ks")
        case True
        then show ?thesis using c(5) ne by blast
      next
        case False
        then have "k \<notin> set (map fst src)" "k \<notin> set (map fst tgt)" by auto
        then have "map_of src k = None" "map_of tgt k = None"
          by (simp_all add: map_of_eq_None_iff)
        then show ?thesis using c(4) False by simp
      qed
    qed
  qed (use c "2.prems" in auto)
  then show ?case
    using c(1) by (auto simp: compareObjects.simps)
next
  case (3 d p src tgt)
  then show ?case
    by (auto intro!: exI [of _ cur] local_ok_nil)
next
  case (4 d p src tgt k ks)
  note pl = "4.prems"(1) and b = "4.prems"(2) and ws = "4.prems"(3) and wt = "4.prems"(4)
    and sc = "4.prems"(5) and dc = "4.prems"(6) and dk = "4.prems"(7) and ag = "4.prems"(8)
  let ?p1 = "appendKey (snapshot p) k"
  let ?d1 = "case map_of src k of
            None \<Rightarrow>
              (case map_of tgt k of None \<Rightarrow> d
              | Some v2 \<Rightarrow>
                  if string_of ?p1 \<notin> ignores (opts d) then add d (copy ?p1) v2
                  else d)
            | Some v1 \<Rightarrow>
                (case map_of tgt k of
                None \<Rightarrow>
                  if string_of ?p1 \<notin> ignores (opts d)
                  then remove d (copy ?p1) v1 else d
                | Some xa \<Rightarrow> diff d ?p1 v1 xa)"
  let ?d2 = "compareObjects_keys ?d1 (rewind ?p1) src tgt ks"
  have b1: "buf ?p1 = render (q @ [k])" using b by (rule buf_appendKey)
  have nf: "\<not> factorize (opts d)" and ig: "ignores (opts d) = {}"
    using pl by (simp_all add: plain_def)
  have ck: "map_of cur k = map_of src k" using ag by simp
  have step: "\<exists>cur1. local_ok q (new_ops d ?d1) (JObj cur) (JObj cur1) \<and>
                sorted (map fst cur1) \<and> distinct (map fst cur1) \<and>
                (\<forall>k'. k' \<noteq> k \<longrightarrow> map_of cur1 k' = map_of cur k') \<and>
                (\<not> equivalent (opts d) \<longrightarrow> map_of cur1 k = map_of tgt k) \<and> grows d ?d1"
  proof (cases "map_of src k")
    case None
    show ?thesis
    proof (cases "map_of tgt k")
      case n2: None
      then show ?thesis
        using None ck sc dc by (auto simp: local_ok_nil grows_refl intro!: exI [of _ cur])
    next
      case (Some v2)
      have "local_ok q [mk_op OperationAdd emptyPtr (render (q @ [k])) JNull v2] (JObj cur)
              (JObj (obj_put k v2 cur))"
        by (rule local_ok_add_obj)
      moreover have "grows d (add d (copy ?p1) v2)"
        by (simp add: grows_def add_plain_eq nf)
      ultimately show ?thesis
        using None Some ig nf b1 sorted_obj_put [OF sc dc, of k v2]
        by (auto simp: add_plain_eq copy_def map_of_obj_put
            intro!: exI [of _ "obj_put k v2 cur"])
    qed
  next
    case (Some v1)
    have wv1: "wf_json v1" using ws Some by (rule wf_map_of)
    show ?thesis
    proof (cases "map_of tgt k")
      case None
      have "local_ok q (remove_ops (invertible (opts d)) (render (q @ [k])) v1) (JObj cur)
              (JObj (AList.delete k cur))"
        using ck Some wv1 by (intro local_ok_remove_ops_obj) simp_all
      moreover have "grows d (remove d (copy ?p1) v1)"
        by (simp add: grows_def remove_eq)
      ultimately show ?thesis
        using None Some ig b1 sorted_delete [OF sc dc, of k]
        by (auto simp: remove_eq copy_def delete_conv'
            intro!: exI [of _ "AList.delete k cur"])
    next
      case s2: (Some v2)
      have wv2: "wf_json v2" using wt s2 by (rule wf_map_of)
      obtain t' where t': "local_ok (q @ [k]) (new_ops d (diff d ?p1 v1 v2)) v1 t'"
          "\<not> equivalent (opts d) \<longrightarrow> t' = v2"
        using "4.IH"(1) [OF refl Some s2 pl b1 wv1 wv2] by blast
      have "local_ok q (new_ops d (diff d ?p1 v1 v2)) (JObj cur) (JObj (AList.update k t' cur))"
        using t'(1) ck Some by (intro local_ok_child_obj) simp_all
      moreover have "map fst (AList.update k t' cur) = map fst cur"
        using ck Some by (intro sorted_update) simp
      ultimately show ?thesis
        using Some s2 sc dc t'(2) grows_diff(1) [of d ?p1 v1 v2]
        by (auto simp: update_conv' intro!: exI [of _ "AList.update k t' cur"])
    qed
  qed
  then obtain cur1 where c1: "local_ok q (new_ops d ?d1) (JObj cur) (JObj cur1)"
      "sorted (map fst cur1)" "distinct (map fst cur1)"
      "\<forall>k'. k' \<noteq> k \<longrightarrow> map_of cur1 k' = map_of cur k'"
      "\<not> equivalent (opts d) \<longrightarrow> map_of cur1 k = map_of tgt k" and g1: "grows d ?d1"
    by blast
  have o1: "opts ?d1 = opts d" using g1 by (rule grows_opts)
  have pl1: "plain ?d1" using pl o1 by (simp add: plain_def)
  have b2: "buf (rewind ?p1) = render q" using b by simp
  have ag1: "\<forall>k' \<in> set ks. map_of cur1 k' = map_of src k'"
    using c1(4) ag dk by auto
  obtain cur2 where c2: "local_ok q (new_ops ?d1 ?d2) (JObj cur1) (JObj cur2)"
      "sorted (map fst cur2)" "distinct (map fst cur2)"
      "\<forall>k'. k' \<notin> set ks \<longrightarrow> map_of cur2 k' = map_of cur1 k'"
      "\<not> equivalent (opts ?d1) \<longrightarrow> (\<forall>k' \<in> set ks. map_of cur2 k' = map_of tgt k')"
    using "4.IH"(2) [OF refl refl refl pl1 b2 ws wt c1(2) c1(3) _ ag1] dk by auto
  have g2: "grows ?d1 ?d2" by (rule grows_diff(3))
  have "new_ops d ?d2 = new_ops d ?d1 @ new_ops ?d1 ?d2"
    using g1 g2 nf by (rule new_ops_trans)
  then have "local_ok q (new_ops d ?d2) (JObj cur) (JObj cur2)"
    using local_ok_seq [OF c1(1) c2(1)] by simp
  moreover have "compareObjects_keys d p src tgt (k # ks) = ?d2"
    by (simp add: Let_def)
  ultimately show ?case
    using c2(2,3,4,5) c1(4,5) o1 dk
    by (intro exI [of _ cur2]) auto
next
  case (5 d p src tgt)
  note pl = "5.prems"(1) and b = "5.prems"(2) and ws = "5.prems"(3) and wt = "5.prems"(4)
  have nf: "\<not> factorize (opts d)" and ig: "ignores (opts d) = {}"
    using pl by (simp_all add: plain_def)
  let ?p0 = "snapshot p"
  let ?sz = "min (length src) (length tgt)"
  let ?psize = "copy (appendIndex ?p0 ?sz)"
  let ?rm = "concat (map (remove_ops (invertible (opts d)) ?psize) (drop ?sz src))"
  let ?d1 = "d\<lparr>patch := patch d @ ?rm\<rparr>"
  let ?r1 = "if ?sz < length src
            then compareArrays_removed d ?p0 ?psize ?sz (drop ?sz src)
            else (d, ?p0)"
  have r1: "?r1 = (?d1, ?p0)"
    using removed_eq [OF ig, of ?p0 ?psize ?sz "drop ?sz src"] by auto
  have ps: "?psize = render (q @ [itoa (length (take ?sz src))])"
    using buf_appendIndex [of ?p0 q ?sz] b by (simp add: copy_def)
  have "local_ok q (concat (map (remove_ops (invertible (opts d))
                 (render (q @ [itoa (length (take ?sz src))]))) (drop ?sz src)))
          (JArr (take ?sz src @ drop ?sz src)) (JArr (take ?sz src))"
    using ws by (intro local_ok_removed) (auto dest: in_set_dropD)
  then have l1: "local_ok q (new_ops d ?d1) (JArr src) (JArr (take ?sz src))"
    using ps by simp
  have g1: "grows d ?d1" by (simp add: grows_def)
  have pl1: "plain ?d1" using pl by (simp add: plain_def)
  let ?r2 = "if equivalent (opts ?d1) \<and> unorderedDeepEqualSlice ?d1 src tgt
             then (?d1, ?p0)
             else compareArrays_elems ?d1 ?p0 0 (take ?sz src) (take ?sz tgt)"
  have mid: "\<exists>zs. local_ok q (new_ops ?d1 (fst ?r2)) (JArr (take ?sz src)) (JArr zs) \<and>
               snd ?r2 = ?p0 \<and> grows ?d1 (fst ?r2) \<and>
               (\<not> equivalent (opts d) \<longrightarrow> zs = take ?sz tgt)"
  proof (cases "equivalent (opts ?d1) \<and> unorderedDeepEqualSlice ?d1 src tgt")
    case True
    then show ?thesis
      by (auto simp: local_ok_nil grows_refl intro!: exI [of _ "take ?sz src"])
  next
    case False
    have "\<exists>zs. local_ok q (new_ops ?d1 (fst (compareArrays_elems ?d1 ?p0 0 (take ?sz src) (take ?sz tgt))))
            (JArr ([] @ take ?sz src @ [])) (JArr ([] @ zs @ [])) \<and>
          length zs = length (take ?sz src) \<and>
          snd (compareArrays_elems ?d1 ?p0 0 (take ?sz src) (take ?sz tgt)) = ?p0 \<and>
          (\<not> equivalent (opts ?d1) \<longrightarrow> zs = take ?sz tgt)"
      using "5.IH" [OF refl refl refl r1 [symmetric] False pl1, of q "[]" "[]"] b ws wt
      by (auto dest: in_set_takeD)
    then show ?thesis
      using False grows_diff(5) [of ?d1 ?p0 0 "take ?sz src" "take ?sz tgt"] by auto
  qed
  then obtain zs where z: "local_ok q (new_ops ?d1 (fst ?r2)) (JArr (take ?sz src)) (JArr zs)"
      "snd ?r2 = ?p0" "grows ?d1 (fst ?r2)" "\<not> equivalent (opts d) \<longrightarrow> zs = take ?sz tgt"
    by blast
  let ?d2 = "fst ?r2"
  have o2: "opts ?d2 = opts d" using grows_opts [OF z(3)] by simp
  have pl2: "plain ?d2" using pl o2 by (simp add: plain_def)
  let ?ad = "map (mk_op OperationAdd emptyPtr (buf ?p0 @ ''/-'') JNull) (drop ?sz tgt)"
  let ?d3 = "?d2\<lparr>patch := patch ?d2 @ ?ad\<rparr>"
  have e3: "compareArrays_added ?d2 ?p0 ?sz (drop ?sz tgt) = ?d3"
    using pl2 by (intro added_eq) simp_all
  have "buf ?p0 @ ''/-'' = render (q @ [''-''])"
    using b by (simp add: render_append)
  then have l3: "local_ok q (new_ops ?d2 ?d3) (JArr zs) (JArr (zs @ drop ?sz tgt))"
    using local_ok_added [of q emptyPtr JNull "drop ?sz tgt" zs] by simp
  have g3: "grows ?d2 ?d3" by (simp add: grows_def)
  have n13: "new_ops ?d1 ?d3 = new_ops ?d1 ?d2 @ new_ops ?d2 ?d3"
    using z(3) g3 by (intro new_ops_trans) (simp_all add: nf)
  have "new_ops d ?d3 = new_ops d ?d1 @ new_ops ?d1 ?d3"
    using g1 grows_trans [OF z(3) g3] nf by (rule new_ops_trans)
  then have "local_ok q (new_ops d ?d3) (JArr src) (JArr (zs @ drop ?sz tgt))"
    using local_ok_seq [OF l1 local_ok_seq [OF z(1) l3]] n13 by simp
  moreover have "compareArrays d p src tgt = ?d3"
  proof -
    have "compareArrays d p src tgt =
          (let r1 = ?r1;
               r2 = (if equivalent (opts (fst r1)) \<and> unorderedDeepEqualSlice (fst r1) src tgt
                     then (fst r1, snd r1)
                     else compareArrays_elems (fst r1) (snd r1) 0 (take ?sz src) (take ?sz tgt))
           in compareArrays_added (fst r2) (snd r2) ?sz (drop ?sz tgt))"
      by (simp add: compareArrays.simps Let_def case_prod_beta)
    also have "\<dots> = compareArrays_added (fst ?r2) (snd ?r2) ?sz (drop ?sz tgt)"
      unfolding r1 Let_def fst_conv snd_conv ..
    also have "\<dots> = compareArrays_added ?d2 ?p0 ?sz (drop ?sz tgt)"
      by (simp only: z(2))
    finally show ?thesis
      by (simp only: e3)
  qed
  ultimately show ?case
    using z(4) by (intro exI [of _ "JArr (zs @ drop ?sz tgt)"]) auto
next
  case (6 d p i x xs y ys)
  note pl = "6.prems"(1) and b = "6.prems"(2) and sp = "6.prems"(3) and ws = "6.prems"(4)
    and wt = "6.prems"(5) and len = "6.prems"(6) and lp = "6.prems"(7)
  have nf: "\<not> factorize (opts d)" using pl by (simp add: plain_def)
  let ?p1 = "appendIndex p i"
  let ?d1 = "diff d ?p1 x y"
  let ?r2 = "compareArrays_elems ?d1 (rewind ?p1) (Suc i) xs ys"
  have b1: "buf ?p1 = render (q @ [itoa i])" using b by (rule buf_appendIndex)
  have rw: "rewind ?p1 = p" using sp by (rule rewind_appendIndex)
  obtain t' where t': "local_ok (q @ [itoa i]) (new_ops d ?d1) x t'"
      "\<not> equivalent (opts d) \<longrightarrow> t' = y"
    using "6.IH"(1) [OF refl pl b1] ws wt by auto
  have "local_ok q (new_ops d ?d1) (JArr (pre @ x # xs @ post)) (JArr ((pre @ x # xs @ post)[i := t']))"
    using t'(1) lp by (intro local_ok_child_arr) (simp_all add: nth_append)
  then have l1: "local_ok q (new_ops d ?d1) (JArr (pre @ (x # xs) @ post))
                   (JArr ((pre @ [t']) @ xs @ post))"
    using lp by (simp add: list_update_append)
  have g1: "grows d ?d1" by (rule grows_diff(1))
  have pl1: "plain ?d1" using pl grows_opts [OF g1] by (simp add: plain_def)
  obtain zs where z: "local_ok q (new_ops ?d1 (fst ?r2)) (JArr ((pre @ [t']) @ xs @ post))
                        (JArr ((pre @ [t']) @ zs @ post))"
      "length zs = length xs" "snd ?r2 = p" "\<not> equivalent (opts d) \<longrightarrow> zs = ys"
    using "6.IH"(2) [OF refl refl refl pl1, of q "pre @ [t']" post] b sp rw ws wt len lp
      grows_opts [OF g1] by auto
  have g2: "grows ?d1 (fst ?r2)" by (rule grows_diff(5))
  have "new_ops d (fst ?r2) = new_ops d ?d1 @ new_ops ?d1 (fst ?r2)"
    using g1 g2 nf by (rule new_ops_trans)
  then have "local_ok q (new_ops d (fst ?r2)) (JArr (pre @ (x # xs) @ post))
               (JArr (pre @ (t' # zs) @ post))"
    using local_ok_seq [OF l1 z(1)] by simp
  moreover have "compareArrays_elems d p i (x # xs) (y # ys) = ?r2"
    by (simp add: Let_def)
  ultimately show ?case
    using z(2,3,4) t'(2) by (intro exI [of _ "t' # zs"]) auto
qed (auto simp: local_ok_nil)

lemma prepare_123_1234:
  "hashmap (prepare rank d p (JArr [JNum 1, JNum 2, JNum 3]) (JArr [JNum 1, JNum 2, JNum 3, JNum 4])) k
   \<noteq> None \<Longrightarrow> hashmap d k \<noteq> None \<or> k \<in> {hasher d (JNum 1), hasher d (JNum 2), hasher d (JNum 3)}"
  by (simp add: prepare.simps areComparable_def split: if_splits)

lemma add_fresh:
  assumes "patch d = []"
    and "factorize (opts d) \<Longrightarrow> \<not> invertible (opts d) \<Longrightarrow> hashmap d (hasher d v) = None"
  shows "patch (add d p v) = [mk_op OperationAdd emptyPtr p JNull v]"
  using assms
  by (cases "factorize (opts d)"; cases "invertible (opts d)")
     (auto simp: add_def findRemoved_def findUnchanged_def patch_append_mk emptyPtr_def
           split: option.splits)

lemma diff_123_1234:
  assumes pd: "patch d = []"
    and i0: "[] \<notin> ignores (opts d)" and i3: "''/3'' \<notin> ignores (opts d)"
    and hm: "factorize (opts d) \<Longrightarrow> \<not> invertible (opts d) \<Longrightarrow>
             hashmap d (hasher d (JNum 4)) = None"
    and cost: "rationalize (opts d) \<Longrightarrow>
       patchLength d [mk_op OperationAdd emptyPtr ''/-'' JNull (JNum 4)]
       \<le> opLength d (mk_op OperationReplace emptyPtr [] JNull
                        (JArr [JNum 1, JNum 2, JNum 3, JNum 4]))"
  shows "patch (diff d \<lparr>buf = [], sep = 0\<rparr> (JArr [JNum 1, JNum 2, JNum 3])
                  (JArr [JNum 1, JNum 2, JNum 3, JNum 4]))
         = [mk_op OperationAdd emptyPtr ''/-'' JNull (JNum 4)]"
proof -
  let ?p = "\<lparr>buf = [], sep = 0\<rparr>"
  let ?a = "JArr [JNum 1, JNum 2, JNum 3]" and ?b = "JArr [JNum 1, JNum 2, JNum 3, JNum 4]"
  have "itoa 3 = ''3''" by code_simp
  then have i3': "itoa (Suc (Suc (Suc 0))) = ''3''" by (simp add: numeral_3_eq_3)
  have el: "compareArrays_elems d ?p 0 [JNum 1, JNum 2, JNum 3] [JNum 1, JNum 2, JNum 3] = (d, ?p)"
    by (simp add: diff_same Let_def rewind_def appendIndex_def)
  have "compareArrays d ?p [JNum 1, JNum 2, JNum 3] [JNum 1, JNum 2, JNum 3, JNum 4]
        = add d ''/-'' (JNum 4)"
    using i3 el
    by (simp add: compareArrays.simps Let_def unorderedDeepEqualSlice_def snapshot_def
        appendIndex_def appendKey_def rewind_def copy_def string_of_def i3')
  then have ca: "patch (compareArrays d ?p [JNum 1, JNum 2, JNum 3] [JNum 1, JNum 2, JNum 3, JNum 4])
        = [mk_op OperationAdd emptyPtr ''/-'' JNull (JNum 4)]"
    using add_fresh [OF pd hm] by simp
  have rl: "rationalizeLastOps (compareArrays d ?p [JNum 1, JNum 2, JNum 3] [JNum 1, JNum 2, JNum 3, JNum 4])
              ?p ?a ?b 0
            = compareArrays d ?p [JNum 1, JNum 2, JNum 3] [JNum 1, JNum 2, JNum 3, JNum 4]"
    if "rationalize (opts d)"
    using cost [OF that] ca
    by (simp add: rationalizeLastOps_def Let_def copy_def mk_op_def env_fields [OF env_diff(4)])
  show ?thesis
    using i0 ca rl pd
    by (subst diff.simps)
       (simp add: areComparable_def copy_def Let_def rationalize_new_def)
qed

lemma equivalent_append_general:
  assumes i0: "[] \<notin> ignores os" and i3: "''/3'' \<notin> ignores os"
    and col: "factorize os \<Longrightarrow> \<not> invertible os \<Longrightarrow>
              h (JNum 4) \<notin> {h (JNum 1), h (JNum 2), h (JNum 3)}"
    and cost: "rationalize os \<Longrightarrow>
       pl [mk_op OperationAdd emptyPtr ''/-'' JNull (JNum 4)]
       \<le> ol (mk_op OperationReplace emptyPtr [] JNull (JArr [JNum 1, JNum 2, JNum 3, JNum 4]))"
  shows "patch (Compare rank (newDiffer h ol pl os) (JArr [JNum 1, JNum 2, JNum 3])
                  (JArr [JNum 1, JNum 2, JNum 3, JNum 4]))
         = [mk_op OperationAdd emptyPtr ''/-'' JNull (JNum 4)]"
proof -
  let ?d0 = "newDiffer h ol pl os"
  let ?a = "JArr [JNum 1, JNum 2, JNum 3]" and ?b = "JArr [JNum 1, JNum 2, JNum 3, JNum 4]"
  let ?d1 = "if factorize (opts ?d0) then prepare rank ?d0 (ptr ?d0) ?a ?b else ?d0"
  have f: "patch ?d1 = []" "opts ?d1 = os" "hasher ?d1 = h" "opLength ?d1 = ol"
    "patchLength ?d1 = pl" "ptr ?d1 = \<lparr>buf = [], sep = 0\<rparr>"
    by (simp_all add: prepare_frame newDiffer_def)
  have hm: "hashmap ?d1 (hasher ?d1 (JNum 4)) = None" if "factorize os" "\<not> invertible os"
  proof (rule ccontr)
    assume "hashmap ?d1 (hasher ?d1 (JNum 4)) \<noteq> None"
    then have "hashmap (prepare rank ?d0 (ptr ?d0) ?a ?b) (h (JNum 4)) \<noteq> None"
      using that by (simp add: f(3)) (simp add: newDiffer_def)
    then have "h (JNum 4) \<in> {h (JNum 1), h (JNum 2), h (JNum 3)}"
      using prepare_123_1234 [of rank ?d0 "ptr ?d0" "h (JNum 4)"] by (simp add: newDiffer_def)
    then show False using col [OF that] by simp
  qed
  have "patch (diff ?d1 \<lparr>buf = [], sep = 0\<rparr> ?a ?b)
        = [mk_op OperationAdd emptyPtr ''/-'' JNull (JNum 4)]"
    by (rule diff_123_1234) (use f i0 i3 hm cost in simp_all)
  then show ?thesis
    unfolding Compare_def Let_def f(6) .
qed

section \<open>Equivalence mode: the two examples\<close>

text \<open>
  C7. With \<open>equivalent\<close> set, \<open>Compare [1,2,3] [3,2,1]\<close> produces the empty patch, for
  every setting of the other three flags, every ignore set, hasher and cost. And
  \<open>Compare [1,2,3] [1,2,3,4]\<close> produces exactly one operation, an add of \<open>4\<close> at the
  append pointer \<open>/-\<close>, for every setting of \<open>factorize\<close>, \<open>rationalize\<close> and
  \<open>invertible\<close>, as long as neither the root nor \<open>/3\<close> is ignored, the digest of \<open>4\<close>
  does not collide with the digest of an unchanged element (else the add becomes a copy
  when \<open>factorize\<close> is on and \<open>invertible\<close> off), and a replace of the whole array
  is not cheaper than the add (else \<open>rationalize\<close> substitutes it). The concrete hasher
  and cost meet both conditions at all eight flag settings.
\<close>

theorem equivalent_examples:
  "patch (Compare rank (newDiffer h ol pl (os\<lparr>equivalent := True\<rparr>))
            (JArr [JNum 1, JNum 2, JNum 3]) (JArr [JNum 3, JNum 2, JNum 1])) = [] \<and>
   ([] \<notin> ignores os \<and> ''/3'' \<notin> ignores os \<and>
    (factorize os \<and> \<not> invertible os \<longrightarrow>
       h (JNum 4) \<notin> {h (JNum 1), h (JNum 2), h (JNum 3)}) \<and>
    (rationalize os \<longrightarrow>
       pl [\<lparr>Type = OperationAdd, From = emptyPtr, Path = ''/-'', OldValue = JNull,
            Value = JNum 4\<rparr>]
       \<le> ol \<lparr>Type = OperationReplace, From = emptyPtr, Path = [], OldValue = JNull,
               Value = JArr [JNum 1, JNum 2, JNum 3, JNum 4]\<rparr>)
    \<longrightarrow>
    patch (Compare rank (newDiffer h ol pl (os\<lparr>equivalent := True\<rparr>))
             (JArr [JNum 1, JNum 2, JNum 3]) (JArr [JNum 1, JNum 2, JNum 3, JNum 4]))
    = [\<lparr>Type = OperationAdd, From = emptyPtr, Path = ''/-'', OldValue = JNull,
         Value = JNum 4\<rparr>])"
proof (intro conjI impI)
  show "patch (Compare rank (newDiffer h ol pl (os\<lparr>equivalent := True\<rparr>))
            (JArr [JNum 1, JNum 2, JNum 3]) (JArr [JNum 3, JNum 2, JNum 1])) = []"
    by (rule equivalent_reorder)
next
  assume a: "[] \<notin> ignores os \<and> ''/3'' \<notin> ignores os \<and>
    (factorize os \<and> \<not> invertible os \<longrightarrow>
       h (JNum 4) \<notin> {h (JNum 1), h (JNum 2), h (JNum 3)}) \<and>
    (rationalize os \<longrightarrow>
       pl [\<lparr>Type = OperationAdd, From = emptyPtr, Path = ''/-'', OldValue = JNull,
            Value = JNum 4\<rparr>]
       \<le> ol \<lparr>Type = OperationReplace, From = emptyPtr, Path = [], OldValue = JNull,
               Value = JArr [JNum 1, JNum 2, JNum 3, JNum 4]\<rparr>)"
  show "patch (Compare rank (newDiffer h ol pl (os\<lparr>equivalent := True\<rparr>))
             (JArr [JNum 1, JNum 2, JNum 3]) (JArr [JNum 1, JNum 2, JNum 3, JNum 4]))
    = [\<lparr>Type = OperationAdd, From = emptyPtr, Path = ''/-'', OldValue = JNull,
         Value = JNum 4\<rparr>]"
    using equivalent_append_general [of "os\<lparr>equivalent := True\<rparr>" h pl ol rank] a
    by (simp add: mk_op_def)
qed

theorem equivalent_examples_witness:
  "\<forall>f r i.
     patch (Compare rank0 (differ0 (config f r i True {}))
              (JArr [JNum 1, JNum 2, JNum 3]) (JArr [JNum 3, JNum 2, JNum 1])) = [] \<and>
     patch (Compare rank0 (differ0 (config f r i True {}))
              (JArr [JNum 1, JNum 2, JNum 3]) (JArr [JNum 1, JNum 2, JNum 3, JNum 4]))
     = [\<lparr>Type = OperationAdd, From = emptyPtr, Path = ''/-'', OldValue = JNull,
          Value = JNum 4\<rparr>]"
proof (intro allI)
  fix f r i
  have c: "(config f r i True {})\<lparr>equivalent := True\<rparr> = config f r i True {}"
    by (simp add: config_def)
  have h: "digest (JNum 4) \<notin> {digest (JNum 1), digest (JNum 2), digest (JNum 3)}"
    by code_simp
  have k: "patchJsonLength [\<lparr>Type = OperationAdd, From = emptyPtr, Path = ''/-'',
              OldValue = JNull, Value = JNum 4\<rparr>]
       \<le> opJsonLength \<lparr>Type = OperationReplace, From = emptyPtr, Path = [], OldValue = JNull,
               Value = JArr [JNum 1, JNum 2, JNum 3, JNum 4]\<rparr>"
    by code_simp
  show "patch (Compare rank0 (differ0 (config f r i True {}))
              (JArr [JNum 1, JNum 2, JNum 3]) (JArr [JNum 3, JNum 2, JNum 1])) = [] \<and>
     patch (Compare rank0 (differ0 (config f r i True {}))
              (JArr [JNum 1, JNum 2, JNum 3]) (JArr [JNum 1, JNum 2, JNum 3, JNum 4]))
     = [\<lparr>Type = OperationAdd, From = emptyPtr, Path = ''/-'', OldValue = JNull,
          Value = JNum 4\<rparr>]"
    using equivalent_examples [of rank0 digest opJsonLength patchJsonLength "config f r i True {}"]
      h k
    unfolding c differ0_def by (simp add: config_def)
qed

section \<open>Round trip\<close>

lemma compare_plain_local:
  assumes nf: "\<not> factorize os" and ig: "ignores os = {}"
    and wa: "wf_json a" and wb: "wf_json b"
  shows "\<exists>t'. local_ok [] (patch (Compare rank (newDiffer h ol pl os) a b)) a t' \<and>
              (\<not> equivalent os \<longrightarrow> t' = b)"
proof -
  let ?d = "newDiffer h ol pl os"
  have pl: "plain ?d" using nf ig by (simp add: plain_def newDiffer_def)
  have b: "buf (ptr ?d) = render []" by (simp add: newDiffer_def)
  have c: "Compare rank ?d a b = diff ?d (ptr ?d) a b"
    using nf by (simp add: Compare_def newDiffer_def)
  have "new_ops ?d (diff ?d (ptr ?d) a b) = patch (diff ?d (ptr ?d) a b)"
    by (simp add: new_ops_def newDiffer_def)
  then show ?thesis
    using diff_local(1) [OF pl b wa wb] c by (simp add: newDiffer_def)
qed

text \<open>
  C1 (as amended). With \<open>factorize\<close> and \<open>equivalent\<close> off and an empty ignore set,
  for every setting of \<open>rationalize\<close> and \<open>invertible\<close>, every hasher and cost, and all
  well-formed trees \<open>a\<close> and \<open>b\<close>: the patch of \<open>Compare a b\<close> on a new Differ, applied
  in order to \<open>a\<close> (tests checked), yields exactly \<open>b\<close>.
\<close>

theorem compare_roundtrip:
  assumes "\<not> factorize os" and "\<not> equivalent os" and "ignores os = {}"
    and "wf_json a" and "wf_json b"
  shows "apply_patch (patch (Compare rank (newDiffer h ol pl os) a b)) a = Some b"
proof -
  obtain t' where "local_ok [] (patch (Compare rank (newDiffer h ol pl os) a b)) a t'"
      and "t' = b"
    using compare_plain_local [OF assms(1,3,4,5), of rank h ol pl] assms(2) by blast
  then show ?thesis
    by (simp add: local_ok_def)
qed

theorem compare_roundtrip_witness:
  "wf_json (JObj [(''a'', JArr [JNum 1, JNum 2, JNum 3]), (''c'', JNull)]) \<and>
   wf_json (JObj [(''a'', JArr [JNum 1]), (''b'', JNum 2)]) \<and>
   apply_patch
     (patch (Compare rank0 (differ0 (config False True True False {}))
               (JObj [(''a'', JArr [JNum 1, JNum 2, JNum 3]), (''c'', JNull)])
               (JObj [(''a'', JArr [JNum 1]), (''b'', JNum 2)])))
     (JObj [(''a'', JArr [JNum 1, JNum 2, JNum 3]), (''c'', JNull)])
   = Some (JObj [(''a'', JArr [JNum 1]), (''b'', JNum 2)])"
proof -
  have wa: "wf_json (JObj [(''a'', JArr [JNum 1, JNum 2, JNum 3]), (''c'', JNull)])"
    by code_simp
  have wb: "wf_json (JObj [(''a'', JArr [JNum 1]), (''b'', JNum 2)])"
    by code_simp
  have c: "\<not> factorize (config False True True False {})"
    "\<not> equivalent (config False True True False {})"
    "ignores (config False True True False {}) = {}"
    by (simp_all add: config_def)
  show ?thesis
    using wa wb compare_roundtrip [OF c wa wb, of rank0 digest opJsonLength patchJsonLength]
    by (simp add: differ0_def)
qed

text \<open>
  The claim as stated fails in two ways. With \<open>equivalent\<close> on, \<open>Compare [1,2,3] [3,2,1]\<close>
  is the empty patch, which leaves \<open>[1,2,3]\<close>: the mode treats the reordering as no
  change. With \<open>factorize\<close> on, \<open>Compare {"a":1} {"ab":1}\<close> is the removal of \<open>/a\<close>
  alone (the add step emits nothing, see C2), which leaves \<open>{}\<close>.
\<close>

theorem compare_roundtrip_counterexample:
  "apply_patch
     (patch (Compare rank0 (differ0 (config False False False True {}))
               (JArr [JNum 1, JNum 2, JNum 3]) (JArr [JNum 3, JNum 2, JNum 1])))
     (JArr [JNum 1, JNum 2, JNum 3])
   = Some (JArr [JNum 1, JNum 2, JNum 3]) \<and>
   apply_patch
     (patch (Compare rank0 (differ0 (config True False False False {}))
               (JObj [(''a'', JNum 1)]) (JObj [(''ab'', JNum 1)])))
     (JObj [(''a'', JNum 1)])
   = Some (JObj [])"
  by code_simp

section \<open>Rationalization of a subtree\<close>






lemma diff_direct:
  assumes "\<not> (s = JNull \<and> t = JNull)" and "copy p \<notin> ignores (opts d)"
    and "\<not> areComparable s t \<or>
         (typeSwitchKind s \<notin> {KindSlice, KindMap} \<and> \<not> deepValueEqual s t)"
  shows "diff d p s t =
         (if \<not> areComparable s t \<and> isRoot p
          then d\<lparr>patch := patch_append (patch d) OperationAdd emptyPtr (copy p) s t\<rparr>
          else replace d (copy p) s t)"
  using assms
  by (subst diff.simps) (cases s; auto simp: Let_def simp del: deepValueEqual.simps)



section \<open>Reusing a Differ\<close>








lemma stale_index_serves_as_copy_source:
  "patch (Compare rank0
            (Compare rank0 (differ0 (config True False False False {}))
               (JObj [(''a'', JObj [(''b'', JNum 1)])])
               (JObj [(''a'', JObj [(''b'', JNum 1)]), (''c'', JNum 2)]))
            (JObj [(''a'', JObj [])]) (JObj [(''a'', JObj [(''x'', JObj [(''b'', JNum 1)])])]))
   = [\<lparr>Type = OperationAdd, From = [], Path = ''/c'', OldValue = JNull, Value = JNum 2\<rparr>,
      \<lparr>Type = OperationCopy, From = ''/a'', Path = ''/a/x'', OldValue = JNull,
        Value = JObj [(''b'', JNum 1)]\<rparr>]"
  by code_simp

section \<open>Invertible patches\<close>



















end
